theory Spec2Isabelle
  imports Complex_Main "HOL-Library.Sublist" "HOL-Library.Log_Nat"
begin

section \<open>JavaScript numbers and strings\<close>

text \<open>
  A JavaScript number is an IEEE 754 binary64 value. A finite one is a rational number and
  the model holds it as such. An arithmetic operation yields the exact result rounded to
  the nearest binary64 value, a tie going to the value whose significand is even: this is
  \<open>round64\<close>. The products and quotients from which the servers compute the number of
  frames and the timeline times, and the animation progress of the canvas service, are
  rounded in this way; the ratios handed to \<open>Math.round\<close> and \<open>Math.floor\<close> for a
  percentage or a chapter are read as exact values. \<open>Math.floor\<close> and \<open>Math.round\<close>
  return integers, \<open>Math.round\<close> rounding a half towards plus infinity.
\<close>

text \<open>For \<open>x \<noteq> 0\<close>, \<open>exponent x\<close> is the integer \<open>e\<close> with \<open>2^e \<le> |x| < 2^(e+1)\<close>.\<close>

definition exponent :: "rat \<Rightarrow> int" where
  "exponent x =
     (let k = bitlen (fst (quotient_of \<bar>x\<bar>)) - bitlen (snd (quotient_of \<bar>x\<bar>))
      in if 2 powi k \<le> \<bar>x\<bar> then k else k - 1)"

text \<open>The nearest integer, a half going to the even neighbour.\<close>

definition roundHalfEven :: "rat \<Rightarrow> int" where
  "roundHalfEven m =
     (if m - of_int \<lfloor>m\<rfloor> < 1 / 2 then \<lfloor>m\<rfloor>
      else if 1 / 2 < m - of_int \<lfloor>m\<rfloor> then \<lfloor>m\<rfloor> + 1
      else if even \<lfloor>m\<rfloor> then \<lfloor>m\<rfloor> else \<lfloor>m\<rfloor> + 1)"

text \<open>\<open>roundTo e x\<close> is the multiple of \<open>2^(e-52)\<close> nearest to \<open>x\<close>, ties to even.\<close>

definition roundTo :: "int \<Rightarrow> rat \<Rightarrow> rat" where
  "roundTo e x = sgn x * (of_int (roundHalfEven (\<bar>x\<bar> / 2 powi (e - 52))) * 2 powi (e - 52))"

text \<open>
  Rounding to binary64. A number of magnitude \<open>2^-1022\<close> or more keeps 53 significant
  bits; below that the binary64 values are the multiples of \<open>2^-1074\<close> (the subnormal
  numbers). Binary64 has no finite value of magnitude \<open>2^1024\<close> or more: where
  JavaScript yields \<open>Infinity\<close>, \<open>round64\<close> still yields the rational rounded to 53
  bits, so it is the rounding of JavaScript for results of magnitude below
  \<open>2^1024 - 2^970\<close> only.
\<close>

definition round64 :: "rat \<Rightarrow> rat" where
  "round64 x = (if x = 0 then 0 else roundTo (max (exponent x) (- 1022)) x)"

definition Math_floor :: "rat \<Rightarrow> int" where
  "Math_floor x = \<lfloor>x\<rfloor>"

definition Math_round :: "rat \<Rightarrow> int" where
  "Math_round x = \<lfloor>x + 1 / 2\<rfloor>"

text \<open>\<open>String(n)\<close> for an integer: decimal digits, most significant first.\<close>

definition digit_char :: "nat \<Rightarrow> char" where
  "digit_char d = char_of (48 + d)"

fun String_nat :: "nat \<Rightarrow> string" where
  "String_nat n = (if n < 10 then [digit_char n] else String_nat (n div 10) @ [digit_char (n mod 10)])"

declare String_nat.simps [simp del]

definition String_int :: "int \<Rightarrow> string" where
  "String_int k = (if k < 0 then CHR ''-'' # String_nat (nat (- k)) else String_nat (nat k))"

text \<open>
  \<open>s.padStart(n, c)\<close> with a one-character pad: the string is extended on the left up to
  length \<open>n\<close> and is returned unchanged when it is already that long.
\<close>

definition padStart :: "nat \<Rightarrow> char \<Rightarrow> string \<Rightarrow> string" where
  "padStart n c s = replicate (n - length s) c @ s"

text \<open>\<open>path.join(dir, name)\<close> on already normalised arguments.\<close>

definition path_join :: "string \<Rightarrow> string \<Rightarrow> string" where
  "path_join dir name = dir @ ''/'' @ name"

text \<open>
  The comparison \<open>a < b\<close> of two JavaScript strings: code unit by code unit, a proper
  prefix being smaller. This is the order in which a directory listing sorted by name, or a
  glob, presents the frame files.
\<close>

fun lex_less :: "string \<Rightarrow> string \<Rightarrow> bool" where
  "lex_less [] [] = False"
| "lex_less [] (y # ys) = True"
| "lex_less (x # xs) [] = False"
| "lex_less (x # xs) (y # ys) =
     ((of_char x :: nat) < of_char y \<or> (x = y \<and> lex_less xs ys))"

section \<open>Frame file names\<close>

text \<open>
  \<open>server.js\<close> and its background-aware variant name frame \<open>i\<close>
  \<open>frame_${String(i).padStart(5, '0')}.jpg\<close>; the canvas services use
  \<open>frame_${String(frameIndex).padStart(6, '0')}.png\<close>.
\<close>

definition frame_name_jpg :: "nat \<Rightarrow> string" where
  "frame_name_jpg i = ''frame_'' @ padStart 5 CHR ''0'' (String_nat i) @ ''.jpg''"

definition frame_name_png :: "nat \<Rightarrow> string" where
  "frame_name_png i = ''frame_'' @ padStart 6 CHR ''0'' (String_nat i) @ ''.png''"

section \<open>The job record and the outside world\<close>

text \<open>
  A job is the object \<open>{ id, status, progress, message, outputFile }\<close> created by
  \<open>POST /api/generate\<close>. The server assigns the status strings \<open>'queued'\<close>,
  \<open>'rendering'\<close>, \<open>'done'\<close> and \<open>'error'\<close>; \<open>Encoding\<close> is the fifth status of the
  data model, which no statement of the server assigns.
\<close>

datatype status = Queued | Rendering | Encoding | Done | Error

record job =
  job_id :: string
  status :: status
  progress :: int
  message :: string
  outputFile :: "string option"

text \<open>
  The two server files: \<open>server.js\<close> captures every frame (\<open>Plain\<close>); its successor
  with background support captures every second frame, \<open>frameStep = 2\<close> (\<open>Decimated\<close>).
\<close>

datatype variant = Plain | Decimated

text \<open>
  Everything outside the process is an \<open>env\<close>: for each awaited call, \<open>None\<close> when it
  resolves and \<open>Some err\<close> when it rejects, \<open>err\<close> being the text that
  \<open>String(err?.stack || err)\<close> yields. \<open>e_percents\<close> are the \<open>percent\<close> fields of
  the encoder's progress events in order of arrival (\<open>None\<close> for a missing or NaN field),
  \<open>e_encode\<close> tells whether the encoder ends with \<open>'end'\<close> or \<open>'error'\<close>.
\<close>

record env =
  e_dirname :: string
  e_launch :: "string option"
  e_newPage :: "string option"
  e_goto :: "string option"
  e_setVideoData :: "string option"
  e_startRender :: "string option"
  e_setTimelineTime :: "nat \<Rightarrow> string option"
  e_screenshot :: "nat \<Rightarrow> string option"
  e_percents :: "rat option list"
  e_encode :: "string option"
  e_close :: "string option"
  e_bgId :: string
  e_ytdlp :: "string option"
  e_scale :: "string option"

text \<open>The argument object of \<open>generateVideo\<close>, without \<open>job\<close>.\<close>

record 'm params =
  title :: string
  episode :: int
  totalEpisodes :: int
  messages :: "'m list"
  durationSec :: rat
  fps :: rat
  width :: int
  height :: int
  framesPath :: string
  outFile :: string
  backgroundUrl :: string
  theme :: string
  messageDelay :: "rat option"

section \<open>The background video\<close>

definition bgDir :: "env \<Rightarrow> string" where
  "bgDir env = path_join (path_join (e_dirname env) ''data'') ''backgrounds''"

text \<open>
  \<open>ensureBackgroundVideo\<close>: \<open>Inl err\<close> is a rejected promise, \<open>Inr None\<close> is \<open>null\<close>.
  An empty \<open>backgroundUrl\<close> is falsy; a gallery reference is returned as a path below
  \<open>__dirname\<close>; anything else is downloaded and then scaled to the canvas.
\<close>

definition ensureBackgroundVideo :: "env \<Rightarrow> string \<Rightarrow> int \<Rightarrow> int \<Rightarrow> string + string option" where
  "ensureBackgroundVideo env url w h =
     (if url = [] then Inr None
      else if prefix ''/backgrounds/'' url then Inr (Some (e_dirname env @ url))
      else (case e_ytdlp env of
              Some err \<Rightarrow> Inl err
            | None \<Rightarrow>
               (case e_scale env of
                  Some err \<Rightarrow> Inl err
                | None \<Rightarrow> Inr (Some (path_join (bgDir env) (e_bgId env @ ''-scaled.mp4''))))))"

text \<open>
  \<open>ensureBackgroundVideo(...).catch(() => null)\<close>, awaited as \<open>bgVideo\<close>. \<open>server.js\<close>
  has no background at all.
\<close>

definition bgVideo :: "variant \<Rightarrow> env \<Rightarrow> 'm params \<Rightarrow> string option" where
  "bgVideo v env p =
     (case v of
        Plain \<Rightarrow> None
      | Decimated \<Rightarrow>
         (case ensureBackgroundVideo env (backgroundUrl p) (width p) (height p) of
            Inl err \<Rightarrow> None
          | Inr r \<Rightarrow> r))"

section \<open>Frame capture\<close>

definition frameStep :: rat where
  "frameStep = 2"

text \<open>
  \<open>Math.floor(durationSec * fps)\<close> in \<open>server.js\<close>,
  \<open>Math.floor((durationSec * fps) / frameStep)\<close> in the decimated server: the product
  and the quotient are binary64 operations.
\<close>

definition totalFrames :: "variant \<Rightarrow> 'm params \<Rightarrow> int" where
  "totalFrames v p =
     (case v of
        Plain \<Rightarrow> Math_floor (round64 (durationSec p * fps p))
      | Decimated \<Rightarrow> Math_floor (round64 (round64 (durationSec p * fps p) / frameStep)))"

text \<open>
  The time handed to \<open>setTimelineTime\<close> for frame \<open>i\<close>: \<open>i / fps\<close>, or
  \<open>(i * frameStep) / fps\<close>, again in binary64. The counter \<open>i\<close> is a natural number;
  binary64 holds it exactly as long as it is below \<open>2^53\<close>.
\<close>

definition sampleTime :: "variant \<Rightarrow> 'm params \<Rightarrow> nat \<Rightarrow> rat" where
  "sampleTime v p i =
     (case v of
        Plain \<Rightarrow> round64 (of_nat i / fps p)
      | Decimated \<Rightarrow> round64 (round64 (of_nat i * frameStep) / fps p))"

text \<open>A captured frame: its ordinal, the timeline time it shows, and its file.\<close>

record sample =
  ordinal :: nat
  timeSec :: rat
  frameFile :: string

text \<open>
  The loop \<open>for (let i = 0; i < totalFrames; i++)\<close>. It returns the captured frames, the
  job record after each iteration, and the error that ended the loop, if any. A frame whose
  \<open>page.evaluate\<close> or \<open>page.screenshot\<close> rejects ends the loop before the progress of
  that frame is written.
\<close>

function captureLoop ::
  "variant \<Rightarrow> env \<Rightarrow> 'm params \<Rightarrow> int \<Rightarrow> nat \<Rightarrow> job \<Rightarrow> sample list \<times> job list \<times> string option" where
  "captureLoop v env p n i job =
     (if int i < n then
        (case e_setTimelineTime env i of
           Some err \<Rightarrow> ([], [], Some err)
         | None \<Rightarrow>
            (case e_screenshot env i of
               Some err \<Rightarrow> ([], [], Some err)
             | None \<Rightarrow>
                (let job' = job
                       \<lparr>progress := Math_round ((of_nat (i + 1) / of_int n) * 80),
                        message := ''Captured frame '' @ String_nat (i + 1) @ ''/'' @ String_int n\<rparr>;
                     rest = captureLoop v env p n (i + 1) job'
                 in (\<lparr>ordinal = i, timeSec = sampleTime v p i,
                       frameFile = path_join (framesPath p) (frame_name_jpg i)\<rparr> # fst rest,
                     job' # fst (snd rest),
                     snd (snd rest)))))
      else ([], [], None))"
  by pat_completeness auto
termination
  by (relation "measure (\<lambda>(v, env, p, n, i, job). nat (n - int i))") auto

declare captureLoop.simps [simp del]

section \<open>Encoding\<close>

text \<open>The ffmpeg command that \<open>generateVideo\<close> builds.\<close>

record ffmpeg_command =
  inputPattern :: string
  inputFramerate :: rat
  outputRate :: rat
  overlay :: "string option"
  saveTo :: string

definition encoderCommand :: "variant \<Rightarrow> 'm params \<Rightarrow> string option \<Rightarrow> ffmpeg_command" where
  "encoderCommand v p bg =
     \<lparr>inputPattern = path_join (framesPath p) ''frame_%05d.jpg'',
      inputFramerate = (case v of Plain \<Rightarrow> fps p | Decimated \<Rightarrow> of_int (Math_round (fps p / frameStep))),
      outputRate = fps p,
      overlay = bg,
      saveTo = outFile p\<rparr>"

text \<open>
  The handler of the encoder's \<open>'progress'\<close> event:
  \<open>if (p.percent) job.progress = 85 + Math.min(10, Math.round(p.percent / 10))\<close>.
  A missing, NaN or zero \<open>percent\<close> is falsy.
\<close>

definition onProgress :: "job \<Rightarrow> rat option \<Rightarrow> job" where
  "onProgress job percent =
     (case percent of
        None \<Rightarrow> job
      | Some x \<Rightarrow> if x = 0 then job else job\<lparr>progress := 85 + min 10 (Math_round (x / 10))\<rparr>)"

fun progressEvents :: "job \<Rightarrow> rat option list \<Rightarrow> job list" where
  "progressEvents job [] = []"
| "progressEvents job (percent # rest) = onProgress job percent # progressEvents (onProgress job percent) rest"

section \<open>generateVideo\<close>

text \<open>
  What one call of \<open>generateVideo\<close> does: the job record after each assignment, oldest
  first; the frames captured; the encoder command, if the encoder was started; whether the
  encoder ended with \<open>'end'\<close>; the error the returned promise rejects with; and whether the
  deletion of the frame directory was scheduled.
\<close>

record run =
  trace :: "job list"
  samples :: "sample list"
  command :: "ffmpeg_command option"
  encoded :: bool
  rejected :: "string option"
  cleanup :: bool

definition failed :: "job list \<Rightarrow> sample list \<Rightarrow> ffmpeg_command option \<Rightarrow> string \<Rightarrow> run" where
  "failed js ss cmd err =
     \<lparr>trace = js, samples = ss, command = cmd, encoded = False, rejected = Some err, cleanup = False\<rparr>"

text \<open>The body of the \<open>try\<close> block, started on the job as \<open>generateVideo\<close> left it.\<close>

definition tryBlock :: "variant \<Rightarrow> env \<Rightarrow> 'm params \<Rightarrow> job \<Rightarrow> run" where
  "tryBlock v env p job =
     (case e_newPage env of Some err \<Rightarrow> failed [] [] None err | None \<Rightarrow>
      case e_goto env of Some err \<Rightarrow> failed [] [] None err | None \<Rightarrow>
      case e_setVideoData env of Some err \<Rightarrow> failed [] [] None err | None \<Rightarrow>
      case e_startRender env of Some err \<Rightarrow> failed [] [] None err | None \<Rightarrow>
      (let captured = captureLoop v env p (totalFrames v p) 0 job;
           ss = fst captured;
           js = fst (snd captured)
       in case snd (snd captured) of
            Some err \<Rightarrow> failed js ss None err
          | None \<Rightarrow>
             (let job1 = (last (job # js))\<lparr>message := ''Encoding video'', progress := 85\<rparr>;
                  cmd = encoderCommand v p (bgVideo v env p);
                  evs = progressEvents job1 (e_percents env);
                  job2 = last (job1 # evs)
              in case e_encode env of
                   Some err \<Rightarrow> failed (js @ job1 # evs) ss (Some cmd) err
                 | None \<Rightarrow>
                    \<lparr>trace = js @ job1 # evs @
                       [job2\<lparr>progress := 100, status := Done, message := ''Completed'',
                             outputFile := Some (outFile p)\<rparr>],
                     samples = ss, command = Some cmd, encoded = True, rejected = None,
                     cleanup = False\<rparr>)))"

text \<open>
  \<open>generateVideo\<close>: the two assignments, \<open>puppeteer.launch\<close> outside the \<open>try\<close>, the
  \<open>try\<close> block, and \<open>finally\<close>. In \<open>finally\<close>, \<open>await browser.close()\<close> comes first:
  when it rejects, the promise of \<open>generateVideo\<close> rejects with its error, whatever the
  \<open>try\<close> block did, and the deletion of the frames is not scheduled.
\<close>

definition generateVideo :: "variant \<Rightarrow> env \<Rightarrow> 'm params \<Rightarrow> job \<Rightarrow> run" where
  "generateVideo v env p job =
     (let job0 = job\<lparr>status := Rendering, message := ''Launching headless browser''\<rparr>
      in case e_launch env of
           Some err \<Rightarrow> failed [job0] [] None err
         | None \<Rightarrow>
            (let r = tryBlock v env p job0
             in case e_close env of
                  Some err \<Rightarrow> r\<lparr>trace := job0 # trace r, rejected := Some err\<rparr>
                | None \<Rightarrow> r\<lparr>trace := job0 # trace r, cleanup := True\<rparr>))"

text \<open>The job object that \<open>POST /api/generate\<close> creates.\<close>

definition newJob :: "string \<Rightarrow> job" where
  "newJob jobId = \<lparr>job_id = jobId, status = Queued, progress = 0, message = ''Queued'', outputFile = None\<rparr>"

text \<open>The same object after the first two assignments of \<open>generateVideo\<close>.\<close>

definition launchedJob :: "string \<Rightarrow> job" where
  "launchedJob jobId = (newJob jobId)\<lparr>status := Rendering, message := ''Launching headless browser''\<rparr>"

text \<open>
  The whole life of a job object: as created, through \<open>generateVideo\<close>, and through the
  \<open>.catch\<close> callback of the handler, which runs when the promise rejects.
\<close>

definition jobHistory :: "variant \<Rightarrow> env \<Rightarrow> 'm params \<Rightarrow> string \<Rightarrow> job list" where
  "jobHistory v env p jobId =
     (let r = generateVideo v env p (newJob jobId);
          js = newJob jobId # trace r
      in case rejected r of
           None \<Rightarrow> js
         | Some err \<Rightarrow> js @ [(last js)\<lparr>status := Error, message := err\<rparr>])"

section \<open>The HTTP handlers of the server\<close>

text \<open>
  The JSON body of \<open>POST /api/generate\<close>: each recognised field is present or
  \<open>undefined\<close>. The handler destructures \<open>req.body || {}\<close> with defaults.
\<close>

record 'm body =
  b_title :: "string option"
  b_episode :: "int option"
  b_totalEpisodes :: "int option"
  b_messages :: "'m list option"
  b_durationSec :: "rat option"
  b_fps :: "rat option"
  b_width :: "int option"
  b_height :: "int option"
  b_backgroundUrl :: "string option"
  b_theme :: "string option"
  b_messageDelay :: "rat option"

definition orDefault :: "'a option \<Rightarrow> 'a \<Rightarrow> 'a" where
  "orDefault field dflt = (case field of None \<Rightarrow> dflt | Some x \<Rightarrow> x)"

definition emptyBody :: "'m body" where
  "emptyBody =
     \<lparr>b_title = None, b_episode = None, b_totalEpisodes = None, b_messages = None,
      b_durationSec = None, b_fps = None, b_width = None, b_height = None,
      b_backgroundUrl = None, b_theme = None, b_messageDelay = None\<rparr>"

definition videosDir :: "env \<Rightarrow> string" where
  "videosDir env = path_join (path_join (e_dirname env) ''data'') ''videos''"

definition framesDir :: "env \<Rightarrow> string" where
  "framesDir env = path_join (path_join (e_dirname env) ''data'') ''frames''"

text \<open>
  The arguments that the handler passes to \<open>generateVideo\<close>. \<open>defaultMessages\<close> is the
  value of \<open>defaultMessages()\<close>, a fixed list of sample messages. The default frame rate
  is 24 in \<open>server.js\<close> and 60 in the decimated server; \<open>server.js\<close> does not read
  \<open>backgroundUrl\<close>, \<open>theme\<close> and \<open>messageDelay\<close>. No field is checked.
\<close>

definition requestParams ::
  "variant \<Rightarrow> env \<Rightarrow> 'm list \<Rightarrow> 'm body option \<Rightarrow> string \<Rightarrow> 'm params" where
  "requestParams v env defaultMessages reqBody jobId =
     (let b = orDefault reqBody emptyBody
      in \<lparr>title = orDefault (b_title b) ''Mensagem no Ultrassom'',
          episode = orDefault (b_episode b) 1,
          totalEpisodes = orDefault (b_totalEpisodes b) 7,
          messages = orDefault (b_messages b) defaultMessages,
          durationSec = orDefault (b_durationSec b) 90,
          fps = orDefault (b_fps b) (case v of Plain \<Rightarrow> 24 | Decimated \<Rightarrow> 60),
          width = orDefault (b_width b) 1080,
          height = orDefault (b_height b) 1920,
          framesPath = path_join (framesDir env) jobId,
          outFile = path_join (videosDir env) (jobId @ ''.mp4''),
          backgroundUrl = (case v of Plain \<Rightarrow> [] | Decimated \<Rightarrow> orDefault (b_backgroundUrl b) []),
          theme = (case v of Plain \<Rightarrow> ''sunset'' | Decimated \<Rightarrow> orDefault (b_theme b) ''sunset''),
          messageDelay = (case v of Plain \<Rightarrow> None | Decimated \<Rightarrow> b_messageDelay b)\<rparr>)"

text \<open>
  The state of the process. \<open>jobs\<close> is the \<open>Map\<close> from job ids to job objects; the
  objects live in \<open>objects\<close>, and the map holds their addresses, since \<open>generateVideo\<close>
  keeps writing to the object it was given whatever the map does. Each object carries the
  rest of its life: the states it will still go through as its \<open>generateVideo\<close> proceeds.
\<close>

record jobObject =
  current :: job
  pending :: "job list"

record server =
  jobs :: "string \<rightharpoonup> nat"
  objects :: "jobObject list"

definition startServer :: server where
  "startServer = \<lparr>jobs = Map.empty, objects = []\<rparr>"

text \<open>
  What happens to the process: a \<open>POST /api/generate\<close> (with the id that \<open>nanoid\<close> draws,
  the outcome of \<open>fs.mkdirSync\<close> and the outside world of the new job), a
  \<open>GET /api/progress/:jobId\<close>, or the next step of the \<open>generateVideo\<close> of one job object.
\<close>

datatype 'm event =
    Generate "'m body option" string "string option" env
  | Progress string
  | Advance nat

text \<open>
  The answers. \<open>BadRequest\<close> is the status 400 with which a handler rejects a request;
  \<open>Unanswered\<close> is a handler that threw before it answered; \<open>NoAnswer\<close> belongs to
  \<open>Advance\<close>, which is no request.
\<close>

datatype response =
    JobId string
  | JobStatus string status int string "string option"
  | NotFound
  | BadRequest string
  | Unanswered string
  | NoAnswer

definition basename :: "string \<Rightarrow> string" where
  "basename f = rev (takeWhile (\<lambda>c. c \<noteq> CHR ''/'') (rev f))"

text \<open>
  \<open>POST /api/generate\<close>. The job object is created and entered in \<open>jobs\<close>; then
  \<open>generateVideo\<close> is called and runs up to its first \<open>await\<close>, so the object is already
  \<open>rendering\<close> when the handler answers: its history starts with the object as
  created and as launched, and the rest is still to come. \<open>fs.mkdirSync\<close> is the only
  statement before \<open>jobs.set\<close> that can throw.
\<close>

definition postGenerate ::
  "variant \<Rightarrow> 'm list \<Rightarrow> server \<Rightarrow> 'm body option \<Rightarrow> string \<Rightarrow> string option \<Rightarrow> env
     \<Rightarrow> server \<times> response" where
  "postGenerate v defaultMessages s reqBody jobId mkdir env =
     (case mkdir of
        Some err \<Rightarrow> (s, Unanswered err)
      | None \<Rightarrow>
         (let p = requestParams v env defaultMessages reqBody jobId;
              obj = \<lparr>current = launchedJob jobId,
                     pending = drop 2 (jobHistory v env p jobId)\<rparr>
          in (s\<lparr>jobs := (jobs s)(jobId \<mapsto> length (objects s)), objects := objects s @ [obj]\<rparr>,
              JobId jobId)))"

text \<open>\<open>GET /api/progress/:jobId\<close>.\<close>

definition getProgress :: "server \<Rightarrow> string \<Rightarrow> response" where
  "getProgress s jobId =
     (case jobs s jobId of
        None \<Rightarrow> NotFound
      | Some a \<Rightarrow>
         (let job = current (objects s ! a)
          in JobStatus jobId (status job) (progress job) (message job)
               (case outputFile job of
                  None \<Rightarrow> None
                | Some f \<Rightarrow> Some (''/videos/'' @ basename f))))"

text \<open>The next assignment to the job object at address \<open>a\<close>.\<close>

definition advance :: "server \<Rightarrow> nat \<Rightarrow> server" where
  "advance s a =
     (if a < length (objects s) then
        (case pending (objects s ! a) of
           [] \<Rightarrow> s
         | j # rest \<Rightarrow> s\<lparr>objects := (objects s)[a := \<lparr>current = j, pending = rest\<rparr>]\<rparr>)
      else s)"

definition step :: "variant \<Rightarrow> 'm list \<Rightarrow> server \<Rightarrow> 'm event \<Rightarrow> server \<times> response" where
  "step v defaultMessages s e =
     (case e of
        Generate reqBody jobId mkdir env \<Rightarrow> postGenerate v defaultMessages s reqBody jobId mkdir env
      | Progress jobId \<Rightarrow> (s, getProgress s jobId)
      | Advance a \<Rightarrow> (advance s a, NoAnswer))"

text \<open>The process from a state through a list of events: the answers, in order.\<close>

fun serve :: "variant \<Rightarrow> 'm list \<Rightarrow> server \<Rightarrow> 'm event list \<Rightarrow> response list" where
  "serve v defaultMessages s [] = []"
| "serve v defaultMessages s (e # es) =
     snd (step v defaultMessages s e) # serve v defaultMessages (fst (step v defaultMessages s e)) es"

text \<open>
  \<open>answered issued log\<close>: along a log of events with their answers, no progress query
  for an id that an earlier \<open>POST /api/generate\<close> has returned (or that is in \<open>issued\<close>)
  is answered \<open>NotFound\<close>.
\<close>

fun answered :: "string list \<Rightarrow> ('m event \<times> response) list \<Rightarrow> bool" where
  "answered issued [] = True"
| "answered issued ((e, r) # rest) =
     ((case e of
         Progress jobId \<Rightarrow> (if jobId \<in> set issued then r \<noteq> NotFound else True)
       | _ \<Rightarrow> True)
      \<and> answered (case r of JobId jobId \<Rightarrow> jobId # issued | _ \<Rightarrow> issued) rest)"

section \<open>Text layout\<close>

text \<open>
  \<open>text.split(' ')\<close>: the pieces between single spaces, empty pieces included; the
  result is never empty.
\<close>

fun split_space :: "string \<Rightarrow> string list" where
  "split_space [] = [[]]"
| "split_space (c # cs) =
     (if c = CHR '' '' then [] # split_space cs
      else (case split_space cs of
              [] \<Rightarrow> [[c]]
            | w # ws \<Rightarrow> (c # w) # ws))"

text \<open>
  The canvas context, as far as \<open>wrapText\<close> uses it: \<open>ctx.measureText(s).width\<close> under
  the font that is set when \<open>wrapText\<close> is called.
\<close>

type_synonym ctx = "string \<Rightarrow> rat"

text \<open>
  \<open>currentLine + (currentLine ? ' ' : '') + word\<close>; an empty \<open>currentLine\<close> is falsy.
\<close>

definition testLine :: "string \<Rightarrow> string \<Rightarrow> string" where
  "testLine currentLine word = currentLine @ (if currentLine \<noteq> [] then '' '' else []) @ word"

text \<open>
  The loop \<open>for (const word of words)\<close> of \<open>wrapText\<close>, on the array \<open>lines\<close> and the
  variable \<open>currentLine\<close>.
\<close>

fun wrapLoop :: "ctx \<Rightarrow> rat \<Rightarrow> string list \<Rightarrow> string list \<Rightarrow> string \<Rightarrow> string list \<times> string" where
  "wrapLoop ctx maxWidth [] lines currentLine = (lines, currentLine)"
| "wrapLoop ctx maxWidth (word # words) lines currentLine =
     (if maxWidth < ctx (testLine currentLine word) \<and> currentLine \<noteq> []
      then wrapLoop ctx maxWidth words (lines @ [currentLine]) word
      else wrapLoop ctx maxWidth words lines (testLine currentLine word))"

text \<open>After the loop: \<open>if (currentLine) lines.push(currentLine); return lines\<close>.\<close>

definition wrapResult :: "string list \<times> string \<Rightarrow> string list" where
  "wrapResult r = (if snd r \<noteq> [] then fst r @ [snd r] else fst r)"

definition wrapText :: "ctx \<Rightarrow> string \<Rightarrow> rat \<Rightarrow> string list" where
  "wrapText ctx text maxWidth = wrapResult (wrapLoop ctx maxWidth (split_space text) [] [])"

text \<open>
  Greedy word wrap, as the specification words it: words are accumulated on the current
  line while the measured width stays within the limit; on overflow the current line is
  finished and a new line starts with the overflowing word. A line that is still empty
  takes the next word as it is.
\<close>

fun greedyLines :: "ctx \<Rightarrow> rat \<Rightarrow> string \<Rightarrow> string list \<Rightarrow> string list" where
  "greedyLines ctx limit line [] = (if line = [] then [] else [line])"
| "greedyLines ctx limit line (w # ws) =
     (if line = [] then greedyLines ctx limit w ws
      else if ctx (line @ '' '' @ w) \<le> limit then greedyLines ctx limit (line @ '' '' @ w) ws
      else line # greedyLines ctx limit w ws)"

section \<open>The canvas services\<close>

text \<open>
  One entry of the \<open>dialogues\<close> array, with the fields that the services read.
\<close>

record dialogue =
  speaker :: string
  d_message :: string
  d_type :: "string option"
  image :: "string option"
  caption :: "string option"

text \<open>
  Errors of the services: a \<open>TypeError\<close> raised by the code itself, or a rejection of a
  call to the file system or the encoder.
\<close>

datatype error = TypeError string | Rejected string

text \<open>
  The outside world of one run of a service: \<open>fs.mkdir\<close>, \<open>fs.writeFile\<close> for each frame
  index, the encoder, and \<open>Date.now()\<close>. Drawing on the canvas is taken to succeed.
\<close>

record svc_env =
  s_mkdir :: "string option"
  s_writeFile :: "nat \<Rightarrow> string option"
  s_encode :: "string option"
  s_now :: nat

definition frameRate :: nat where
  "frameRate = 30"

subsection \<open>\<open>video-generator-app/src/services/videoService.js\<close>\<close>

text \<open>
  What \<open>createFrame\<close> draws: the background for the frame number, the chat with the
  dialogues so far and the progress of the newest one, and the image of the current
  dialogue once its progress exceeds 0.3.
\<close>

record frame_app =
  fa_background :: string
  fa_frameNumber :: nat
  fa_dialogues :: "dialogue list"
  fa_progress :: rat
  fa_image :: "string option"

text \<open>
  \<open>createFrame(currentDialogue, allDialogues, backgroundType, progress, frameNumber)\<close>.
  \<open>currentDialogue\<close> is \<open>None\<close> when the caller passes \<open>undefined\<close>; reading
  \<open>currentDialogue.image\<close> then throws.
\<close>

definition createFrame_app ::
  "dialogue option \<Rightarrow> dialogue list \<Rightarrow> string \<Rightarrow> rat \<Rightarrow> nat \<Rightarrow> error + frame_app" where
  "createFrame_app currentDialogue allDialogues backgroundType prog frameNumber =
     (case currentDialogue of
        None \<Rightarrow> Inl (TypeError ''Cannot read properties of undefined (reading 'image')'')
      | Some d \<Rightarrow>
          Inr \<lparr>fa_background = backgroundType, fa_frameNumber = frameNumber,
               fa_dialogues = allDialogues, fa_progress = prog,
               fa_image = (case image d of
                             None \<Rightarrow> None
                           | Some url \<Rightarrow> if url \<noteq> [] \<and> 3 / 10 < prog then Some url else None)\<rparr>)"

text \<open>\<open>dialogues[i]\<close>: \<open>undefined\<close> outside the array.\<close>

definition at_index :: "'a list \<Rightarrow> int \<Rightarrow> 'a option" where
  "at_index xs i = (if 0 \<le> i \<and> i < int (length xs) then Some (xs ! nat i) else None)"

text \<open>
  Creating one frame and writing it: the result is the path pushed on \<open>frames\<close>.
\<close>

definition writeFrame_app ::
  "svc_env \<Rightarrow> string \<Rightarrow> nat \<Rightarrow> error + frame_app \<Rightarrow> error + string" where
  "writeFrame_app env tempDir frameIndex frame =
     (case frame of
        Inl err \<Rightarrow> Inl err
      | Inr fr \<Rightarrow>
         (case s_writeFile env frameIndex of
            Some err \<Rightarrow> Inl (Rejected err)
          | None \<Rightarrow> Inr (path_join tempDir (frame_name_png frameIndex))))"

text \<open>
  The inner loop \<open>for (let f = 0; f < framesPerDialogue; f++)\<close> for dialogue \<open>i\<close>, from
  \<open>f\<close> on; \<open>frames\<close> is the array so far, whose length is \<open>frameIndex\<close>.
\<close>

function dialogueLoop_app ::
  "svc_env \<Rightarrow> dialogue list \<Rightarrow> string \<Rightarrow> string \<Rightarrow> nat \<Rightarrow> nat \<Rightarrow> string list \<Rightarrow> error + string list" where
  "dialogueLoop_app env dialogues backgroundType tempDir i f frames =
     (if f < frameRate * 2 then
        (case writeFrame_app env tempDir (length frames)
                (createFrame_app (at_index dialogues (int i)) (take (i + 1) dialogues) backgroundType
                   (of_nat f / of_nat (frameRate * 2)) (length frames)) of
           Inl err \<Rightarrow> Inl err
         | Inr framePath \<Rightarrow>
             dialogueLoop_app env dialogues backgroundType tempDir i (f + 1) (frames @ [framePath]))
      else Inr frames)"
  by pat_completeness auto
termination
  by (relation "measure (\<lambda>(env, dialogues, backgroundType, tempDir, i, f, frames). frameRate * 2 - f)") auto

declare dialogueLoop_app.simps [simp del]

text \<open>The outer loop \<open>for (let i = 0; i < dialogues.length; i++)\<close>.\<close>

function dialoguesLoop_app ::
  "svc_env \<Rightarrow> dialogue list \<Rightarrow> string \<Rightarrow> string \<Rightarrow> nat \<Rightarrow> string list \<Rightarrow> error + string list" where
  "dialoguesLoop_app env dialogues backgroundType tempDir i frames =
     (if i < length dialogues then
        (case dialogueLoop_app env dialogues backgroundType tempDir i 0 frames of
           Inl err \<Rightarrow> Inl err
         | Inr frames' \<Rightarrow> dialoguesLoop_app env dialogues backgroundType tempDir (i + 1) frames')
      else Inr frames)"
  by pat_completeness auto
termination
  by (relation "measure (\<lambda>(env, dialogues, backgroundType, tempDir, i, frames). length dialogues - i)") auto

declare dialoguesLoop_app.simps [simp del]

text \<open>
  The final loop: \<open>frameRate\<close> more frames holding
  \<open>dialogues[dialogues.length - 1]\<close> at progress 1.
\<close>

function finalLoop_app ::
  "svc_env \<Rightarrow> dialogue list \<Rightarrow> string \<Rightarrow> string \<Rightarrow> nat \<Rightarrow> string list \<Rightarrow> error + string list" where
  "finalLoop_app env dialogues backgroundType tempDir f frames =
     (if f < frameRate then
        (case writeFrame_app env tempDir (length frames)
                (createFrame_app (at_index dialogues (int (length dialogues) - 1)) dialogues
                   backgroundType 1 (length frames)) of
           Inl err \<Rightarrow> Inl err
         | Inr framePath \<Rightarrow>
             finalLoop_app env dialogues backgroundType tempDir (f + 1) (frames @ [framePath]))
      else Inr frames)"
  by pat_completeness auto
termination
  by (relation "measure (\<lambda>(env, dialogues, backgroundType, tempDir, f, frames). frameRate - f)") auto

declare finalLoop_app.simps [simp del]

definition generateFrames_app ::
  "svc_env \<Rightarrow> dialogue list \<Rightarrow> string \<Rightarrow> string \<Rightarrow> error + string list" where
  "generateFrames_app env dialogues backgroundType tempDir =
     (case dialoguesLoop_app env dialogues backgroundType tempDir 0 [] of
        Inl err \<Rightarrow> Inl err
      | Inr frames \<Rightarrow> finalLoop_app env dialogues backgroundType tempDir 0 frames)"

text \<open>The request body of the controller; \<open>vd_dialogues\<close> is \<open>None\<close> when the field is
  missing or is not an array.\<close>

record videoData =
  vd_title :: "string option"
  vd_background :: "string option"
  vd_dialogues :: "dialogue list option"

text \<open>
  \<open>generateVideo(videoData, jobId)\<close> of the service: the frames, the encoder, the cleanup
  (which catches its own errors), and the name and URL of the video. Every error is logged
  and thrown again.
\<close>

definition generateVideo_app :: "svc_env \<Rightarrow> videoData \<Rightarrow> string \<Rightarrow> error + string \<times> string" where
  "generateVideo_app env vd jobId =
     (case s_mkdir env of
        Some err \<Rightarrow> Inl (Rejected err)
      | None \<Rightarrow>
         (case generateFrames_app env (orDefault (vd_dialogues vd) [])
                 (orDefault (vd_background vd) ''minecraft'') (path_join ''temp'' jobId) of
            Inl err \<Rightarrow> Inl err
          | Inr frames \<Rightarrow>
             (case s_encode env of
                Some err \<Rightarrow> Inl (Rejected err)
              | None \<Rightarrow>
                 (let outputFilename = ''video_'' @ String_nat (s_now env) @ ''_'' @ jobId @ ''.mp4''
                  in Inr (outputFilename, ''/videos/'' @ outputFilename)))))"

subsection \<open>The controller\<close>

text \<open>An entry of the controller's \<open>jobStatus\<close> map.\<close>

datatype job_state =
    Processing
  | Completed string string
  | Failed string

definition errorMessage :: "error \<Rightarrow> string" where
  "errorMessage e = (case e of TypeError m \<Rightarrow> m | Rejected m \<Rightarrow> m)"

text \<open>
  \<open>exports.generateVideo\<close>: the answer, the \<open>jobStatus\<close> map when the answer is sent, and
  the map once the promise of the service has settled. A body without a \<open>dialogues\<close>
  array is answered 400; nothing else is checked.
\<close>

definition controller_generateVideo ::
  "svc_env \<Rightarrow> (string \<rightharpoonup> job_state) \<Rightarrow> videoData \<Rightarrow> string
     \<Rightarrow> response \<times> (string \<rightharpoonup> job_state) \<times> (string \<rightharpoonup> job_state)" where
  "controller_generateVideo env jobStatus vd jobId =
     (case vd_dialogues vd of
        None \<Rightarrow> (BadRequest ''JSON must contain a dialogues array'', jobStatus, jobStatus)
      | Some ds \<Rightarrow>
         (JobId jobId,
          jobStatus(jobId \<mapsto> Processing),
          (case generateVideo_app env vd jobId of
             Inr (filename, url) \<Rightarrow> jobStatus(jobId \<mapsto> Completed filename url)
           | Inl err \<Rightarrow> jobStatus(jobId \<mapsto> Failed (errorMessage err)))))"

subsection \<open>The service with the new interface\<close>

text \<open>The argument of \<open>generateFrames(videoData, tempDir)\<close>.\<close>

record frameData =
  fd_title :: string
  fd_episode :: int
  fd_totalEpisodes :: int
  fd_dialogues :: "dialogue list"
  fd_background :: string

text \<open>
  An element of \<open>visibleMessages\<close>: the dialogue with the added fields
  \<open>animationProgress\<close> and \<open>index\<close>.
\<close>

record visibleMessage =
  vm_dialogue :: dialogue
  animationProgress :: rat
  vm_index :: nat

text \<open>
  The state object passed to \<open>createFrame\<close>. \<open>xpProgress\<close> is
  \<open>currentMessageIndex / totalMessages\<close>, which is NaN (\<open>None\<close>) for an empty list.
\<close>

record renderState =
  rs_title :: string
  rs_episode :: int
  rs_totalEpisodes :: int
  visibleMessages :: "visibleMessage list"
  currentChapter :: int
  totalChapters :: int
  xpProgress :: "rat option"
  globalProgress :: rat
  messageProgress :: rat
  rs_background :: string
  isHookMoment :: bool
  isRevelation :: bool
  isCliffhanger :: bool
  frameNumber :: nat

definition framesPerMessage :: nat where
  "framesPerMessage = nat (Math_floor (of_nat frameRate * 2))"

definition totalFrames_ui :: "dialogue list \<Rightarrow> nat" where
  "totalFrames_ui dialogues = length dialogues * framesPerMessage + frameRate * 2"

text \<open>
  The test \<open>f > 0 && f % framesPerMessage === 0 && currentMessageIndex < dialogues.length\<close>.
\<close>

definition addsMessage :: "dialogue list \<Rightarrow> nat \<Rightarrow> nat \<Rightarrow> bool" where
  "addsMessage dialogues f currentMessageIndex =
     (0 < f \<and> f mod framesPerMessage = 0 \<and> currentMessageIndex < length dialogues)"

text \<open>The variables after the block guarded by that test.\<close>

definition pushMessage :: "dialogue list \<Rightarrow> nat \<Rightarrow> nat \<Rightarrow> visibleMessage list \<Rightarrow> visibleMessage list" where
  "pushMessage dialogues f currentMessageIndex visible =
     (if addsMessage dialogues f currentMessageIndex
      then visible @ [\<lparr>vm_dialogue = dialogues ! currentMessageIndex, animationProgress = 0,
                       vm_index = currentMessageIndex\<rparr>]
      else visible)"

definition nextIndex :: "dialogue list \<Rightarrow> nat \<Rightarrow> nat \<Rightarrow> nat" where
  "nextIndex dialogues f currentMessageIndex =
     (if addsMessage dialogues f currentMessageIndex then currentMessageIndex + 1
      else currentMessageIndex)"

definition nextChapter :: "dialogue list \<Rightarrow> nat \<Rightarrow> nat \<Rightarrow> int \<Rightarrow> int" where
  "nextChapter dialogues f currentMessageIndex chapter =
     (if addsMessage dialogues f currentMessageIndex
      then min 7 (Math_floor ((of_nat (currentMessageIndex + 1) / of_nat (length dialogues)) * 7) + 1)
      else chapter)"

text \<open>
  \<open>visibleMessages.map(msg => ({...msg, animationProgress: Math.min(1, msg.animationProgress + 0.1)}))\<close>:
  the literal \<open>0.1\<close> is the binary64 number next to one tenth, and the sum is rounded.
\<close>

definition animate :: "visibleMessage list \<Rightarrow> visibleMessage list" where
  "animate visible =
     map (\<lambda>msg. msg\<lparr>animationProgress :=
            min 1 (round64 (animationProgress msg + round64 (1 / 10)))\<rparr>) visible"

text \<open>The state of frame \<open>f\<close>, from the variables as the frame's updates have left them.\<close>

definition stateOf :: "frameData \<Rightarrow> nat \<Rightarrow> nat \<Rightarrow> visibleMessage list \<Rightarrow> int \<Rightarrow> renderState" where
  "stateOf vd f currentMessageIndex visible chapter =
     \<lparr>rs_title = fd_title vd, rs_episode = fd_episode vd, rs_totalEpisodes = fd_totalEpisodes vd,
      visibleMessages = visible,
      currentChapter = chapter,
      totalChapters = 7,
      xpProgress = (if length (fd_dialogues vd) = 0 then None
                    else Some (of_nat currentMessageIndex / of_nat (length (fd_dialogues vd)))),
      globalProgress = of_nat f / of_nat (totalFrames_ui (fd_dialogues vd)),
      messageProgress = of_nat (f mod framesPerMessage) / of_nat framesPerMessage,
      rs_background = fd_background vd,
      isHookMoment = (f < frameRate * 2),
      isRevelation = (case at_index (fd_dialogues vd) (int currentMessageIndex - 1) of
                        None \<Rightarrow> False
                      | Some d \<Rightarrow> d_type d = Some ''revelation''),
      isCliffhanger = (int (length (fd_dialogues vd)) - 1 \<le> int currentMessageIndex
                       \<and> int (totalFrames_ui (fd_dialogues vd)) - int (frameRate * 2) \<le> int f),
      frameNumber = f\<rparr>"

text \<open>
  The loop \<open>for (let f = 0; f < totalFrames; f++)\<close> of \<open>generateFrames\<close>: the states
  handed to \<open>createFrame\<close>, in order, and the error of the \<open>fs.writeFile\<close> that ended
  the loop, if any.
\<close>

function frameLoop ::
  "svc_env \<Rightarrow> frameData \<Rightarrow> nat \<Rightarrow> nat \<Rightarrow> visibleMessage list \<Rightarrow> int \<Rightarrow> renderState list \<times> error option" where
  "frameLoop env vd f currentMessageIndex visible chapter =
     (if f < totalFrames_ui (fd_dialogues vd) then
        (let index' = nextIndex (fd_dialogues vd) f currentMessageIndex;
             visible' = animate (pushMessage (fd_dialogues vd) f currentMessageIndex visible);
             chapter' = nextChapter (fd_dialogues vd) f currentMessageIndex chapter;
             state = stateOf vd f index' visible' chapter'
         in case s_writeFile env f of
              Some err \<Rightarrow> ([state], Some (Rejected err))
            | None \<Rightarrow>
                (let rest = frameLoop env vd (f + 1) index' visible' chapter'
                 in (state # fst rest, snd rest)))
      else ([], None))"
  by pat_completeness auto
termination
  by (relation "measure (\<lambda>(env, vd, f, currentMessageIndex, visible, chapter).
        totalFrames_ui (fd_dialogues vd) - f)") auto

declare frameLoop.simps [simp del]

text \<open>
  \<open>generateFrames\<close>, with \<open>currentMessageIndex = 0\<close>, \<open>visibleMessages = []\<close> and
  \<open>currentChapter = 1\<close>.
\<close>

definition generateFrames_ui :: "svc_env \<Rightarrow> frameData \<Rightarrow> renderState list \<times> error option" where
  "generateFrames_ui env vd = frameLoop env vd 0 0 [] 1"

text \<open>The dialogues that a frame shows, in the order of \<open>visibleMessages\<close>.\<close>

definition shown :: "renderState \<Rightarrow> dialogue list" where
  "shown s = map vm_dialogue (visibleMessages s)"

text \<open>The decimation factor of each server: every frame, or every \<open>frameStep\<close>-th frame.\<close>

definition decimation :: "variant \<Rightarrow> rat" where
  "decimation v = (case v of Plain \<Rightarrow> 1 | Decimated \<Rightarrow> frameStep)"

section \<open>Concrete inputs\<close>

text \<open>An outside world in which every call succeeds and the encoder reports 50 and 100 percent.\<close>

definition env_ok :: env where
  "env_ok =
     \<lparr>e_dirname = ''/app'', e_launch = None, e_newPage = None, e_goto = None,
      e_setVideoData = None, e_startRender = None,
      e_setTimelineTime = (\<lambda>i. None), e_screenshot = (\<lambda>i. None),
      e_percents = [Some 50, Some 100], e_encode = None, e_close = None,
      e_bgId = ''bg0001'', e_ytdlp = None, e_scale = None\<rparr>"

text \<open>A job of three seconds at two frames per second, with no background.\<close>

definition demo_params :: "string params" where
  "demo_params =
     \<lparr>title = ''Demo'', episode = 1, totalEpisodes = 7, messages = [''A'', ''B''],
      durationSec = 3, fps = 2, width = 1080, height = 1920,
      framesPath = ''/app/data/frames/job1'', outFile = ''/app/data/videos/job1.mp4'',
      backgroundUrl = [], theme = ''sunset'', messageDelay = None\<rparr>"

text \<open>The encoder reports 50 percent and then 20 percent; everything else succeeds.\<close>

definition env_regress :: env where
  "env_regress = env_ok\<lparr>e_percents := [Some 50, Some 20]\<rparr>"

text \<open>The encoder fails; everything before it succeeds.\<close>

definition env_encode_fails :: env where
  "env_encode_fails = env_ok\<lparr>e_encode := Some ''Error: ffmpeg exited with code 1''\<rparr>"

text \<open>The download of the background fails; everything else succeeds.\<close>

definition env_bg_down :: env where
  "env_bg_down = env_ok\<lparr>e_ytdlp := Some ''ERROR: Unable to download webpage''\<rparr>"

text \<open>The demo job with a background that has to be downloaded.\<close>

definition bg_params :: "string params" where
  "bg_params = demo_params\<lparr>backgroundUrl := ''https://example.com/clip''\<rparr>"

text \<open>A canvas on which every character is ten units wide.\<close>

definition monoWidth :: ctx where
  "monoWidth s = of_nat (length s) * 10"

text \<open>A service run in which every call succeeds.\<close>

definition svc_ok :: svc_env where
  "svc_ok = \<lparr>s_mkdir = None, s_writeFile = (\<lambda>i. None), s_encode = None, s_now = 1000\<rparr>"

text \<open>The same, except that writing frame 61 fails.\<close>

definition svc_disk_full :: svc_env where
  "svc_disk_full =
     svc_ok\<lparr>s_writeFile := (\<lambda>i. if i = 61 then Some ''ENOSPC: no space left on device'' else None)\<rparr>"

text \<open>Two dialogues and a job with both.\<close>

definition hello :: dialogue where
  "hello = \<lparr>speaker = ''Ava'', d_message = ''hello there'', d_type = None, image = None, caption = None\<rparr>"

definition reply :: dialogue where
  "reply = \<lparr>speaker = ''You'', d_message = ''fr?'', d_type = None, image = None, caption = None\<rparr>"

definition demo_data :: frameData where
  "demo_data = \<lparr>fd_title = ''Demo'', fd_episode = 1, fd_totalEpisodes = 7,
     fd_dialogues = [hello, reply], fd_background = ''space''\<rparr>"

text \<open>A request for a video of zero seconds.\<close>

definition zero_body :: "string body" where
  "zero_body = emptyBody\<lparr>b_durationSec := Some 0, b_fps := Some 24\<rparr>"

text \<open>A small request, and a run of the server: a submission, two steps of the job, two queries.\<close>

definition small_body :: "string body" where
  "small_body = emptyBody\<lparr>b_durationSec := Some 1, b_fps := Some 2\<rparr>"

definition demo_events :: "string event list" where
  "demo_events =
     [Generate (Some small_body) ''job1'' None env_ok, Advance 0, Progress ''job1'',
      Advance 0, Progress ''nope'']"

text \<open>
  A job of 0.7 seconds at ten frames per second, and one of 8.2 seconds at thirty: each
  duration is the binary64 number that \<open>JSON.parse\<close> yields for the decimal.
\<close>

definition short_params :: "string params" where
  "short_params = demo_params\<lparr>durationSec := round64 (7 / 10), fps := 10\<rparr>"

definition long_params :: "string params" where
  "long_params = demo_params\<lparr>durationSec := round64 (82 / 10), fps := 30\<rparr>"

text \<open>Every stage succeeds; closing the browser afterwards fails.\<close>

definition env_close_fails :: env where
  "env_close_fails = env_ok\<lparr>e_close := Some ''Error: Protocol error (Browser.close): Target closed''\<rparr>"

section \<open>Auxiliary functions for the proofs\<close>

text \<open>
  Rounding to 53 significant bits whatever the magnitude. It agrees with \<open>round64\<close> from
  \<open>2^-1022\<close> upwards.
\<close>

definition round53 :: "rat \<Rightarrow> rat" where
  "round53 x = (if x = 0 then 0 else roundTo (exponent x) x)"

text \<open>The \<open>k\<close> low decimal digits of \<open>n\<close>, most significant first.\<close>

fun digits_fixed :: "nat \<Rightarrow> nat \<Rightarrow> string" where
  "digits_fixed 0 n = []"
| "digits_fixed (Suc k) n = digits_fixed k (n div 10) @ [digit_char (n mod 10)]"

text \<open>The pieces of the job history that the proofs name.\<close>

definition capturedJobs :: "variant \<Rightarrow> env \<Rightarrow> 'm params \<Rightarrow> job \<Rightarrow> job list" where
  "capturedJobs v env p job = fst (snd (captureLoop v env p (totalFrames v p) 0 job))"

definition encodingJob :: "variant \<Rightarrow> env \<Rightarrow> 'm params \<Rightarrow> job \<Rightarrow> job" where
  "encodingJob v env p job =
     (last (job # capturedJobs v env p job))\<lparr>message := ''Encoding video'', progress := 85\<rparr>"

definition encoderJobs :: "variant \<Rightarrow> env \<Rightarrow> 'm params \<Rightarrow> job \<Rightarrow> job list" where
  "encoderJobs v env p job = progressEvents (encodingJob v env p job) (e_percents env)"

definition completedJob :: "variant \<Rightarrow> env \<Rightarrow> 'm params \<Rightarrow> job \<Rightarrow> job" where
  "completedJob v env p job =
     (last (encodingJob v env p job # encoderJobs v env p job))
       \<lparr>progress := 100, status := Done, message := ''Completed'', outputFile := Some (outFile p)\<rparr>"

definition fullTrace :: "variant \<Rightarrow> env \<Rightarrow> 'm params \<Rightarrow> job \<Rightarrow> job list" where
  "fullTrace v env p job =
     capturedJobs v env p job @ encodingJob v env p job # encoderJobs v env p job"

text \<open>The value that a progress event with a truthy \<open>percent\<close> writes.\<close>

definition encoderProgress :: "rat \<Rightarrow> int" where
  "encoderProgress x = 85 + min 10 (Math_round (x / 10))"

text \<open>The \<open>percent\<close> values that pass the test \<open>if (p.percent)\<close>.\<close>

fun truthy :: "rat option list \<Rightarrow> rat list" where
  "truthy [] = []"
| "truthy (None # rest) = truthy rest"
| "truthy (Some x # rest) = (if x = 0 then truthy rest else x # truthy rest)"

section \<open>Status graphs\<close>

text \<open>
  \<open>follows G xs\<close>: every change of status along \<open>xs\<close> is an edge of \<open>G\<close>.
  \<open>absorbing a xs\<close>: once \<open>xs\<close> reaches \<open>a\<close> it stays there.
\<close>

fun follows :: "(status \<times> status) list \<Rightarrow> status list \<Rightarrow> bool" where
  "follows G (a # b # rest) = ((a = b \<or> (a, b) \<in> set G) \<and> follows G (b # rest))"
| "follows G rest = True"

fun absorbing :: "status \<Rightarrow> status list \<Rightarrow> bool" where
  "absorbing a (x # y # rest) = ((x \<noteq> a \<or> y = a) \<and> absorbing a (y # rest))"
| "absorbing a rest = True"

text \<open>The graph \<open>queued \<rightarrow> rendering \<rightarrow> {done | error}\<close>.\<close>

definition server_graph :: "(status \<times> status) list" where
  "server_graph = [(Queued, Rendering), (Rendering, Done), (Rendering, Error)]"

section \<open>Properties\<close>

subsection \<open>Numbers\<close>

lemma floor_rat_numeral [simp]:
  "\<lfloor>(numeral a :: rat) / numeral b\<rfloor> = numeral a div numeral b"
  using floor_divide_of_int_eq[of "numeral a" "numeral b", where ?'a = rat] by simp

lemma pow2_diff: "(2::rat) powi (a - b) = 2 powi a / 2 powi b"
  by (rule power_int_diff) simp

lemma quotient_of_pos:
  assumes "0 < x"
  shows "0 < fst (quotient_of x) \<and> 0 < snd (quotient_of x)
       \<and> x = of_int (fst (quotient_of x)) / of_int (snd (quotient_of x))"
proof -
  obtain a b where q: "quotient_of x = (a, b)" by (cases "quotient_of x")
  then have b: "0 < b" by (rule quotient_of_denom_pos)
  have x: "x = of_int a / of_int b" using q by (simp add: quotient_of_div)
  have "0 < a" using assms b x by (simp add: zero_less_divide_iff)
  then show ?thesis using q b x by simp
qed

lemma exponent_lower: assumes "x \<noteq> 0" shows "2 powi exponent x \<le> \<bar>x\<bar>"
proof -
  let ?a = "fst (quotient_of \<bar>x\<bar>)" and ?b = "snd (quotient_of \<bar>x\<bar>)"
  let ?k = "bitlen ?a - bitlen ?b"
  have pos: "0 < \<bar>x\<bar>" using assms by simp
  note q = quotient_of_pos[OF pos]
  show ?thesis
  proof (cases "2 powi ?k \<le> \<bar>x\<bar>")
    case True
    then show ?thesis by (simp add: exponent_def Let_def)
  next
    case False
    have a: "2 ^ nat (bitlen ?a - 1) \<le> ?a" using bitlen_bounds[of ?a] q by simp
    have b: "?b < 2 ^ nat (bitlen ?b)" using bitlen_bounds[of ?b] q by simp
    have la: "1 \<le> bitlen ?a" using q bitlen_eq_zero_iff[of ?a] bitlen_nonneg[of ?a] by linarith
    have lb: "0 \<le> bitlen ?b" by (rule bitlen_nonneg)
    have ra: "(2::rat) powi (bitlen ?a - 1) \<le> of_int ?a"
    proof -
      have "(of_int (2 ^ nat (bitlen ?a - 1)) :: rat) \<le> of_int ?a" using a by (simp only: of_int_le_iff)
      then show ?thesis using la by (simp add: power_int_def)
    qed
    have rb: "(of_int ?b :: rat) \<le> 2 powi (bitlen ?b)"
    proof -
      have "(of_int ?b :: rat) \<le> of_int (2 ^ nat (bitlen ?b))" using b by (simp only: of_int_le_iff less_imp_le)
      then show ?thesis using lb by (simp add: power_int_def)
    qed
    have bp: "0 < (of_int ?b :: rat)" using q by simp
    have "?k - 1 = (bitlen ?a - 1) - bitlen ?b" by simp
    then have "(2::rat) powi (?k - 1) = 2 powi (bitlen ?a - 1) / 2 powi (bitlen ?b)"
      by (simp only: pow2_diff)
    also have "\<dots> \<le> of_int ?a / 2 powi (bitlen ?b)"
      using ra by (simp add: divide_right_mono)
    also have "\<dots> \<le> of_int ?a / of_int ?b"
      using rb bp q by (intro divide_left_mono) (simp_all add: mult_pos_pos)
    also have "\<dots> = \<bar>x\<bar>" using q by simp
    finally show ?thesis using False by (simp add: exponent_def Let_def)
  qed
qed

lemma exponent_upper: assumes "x \<noteq> 0" shows "\<bar>x\<bar> < 2 powi (exponent x + 1)"
proof -
  let ?a = "fst (quotient_of \<bar>x\<bar>)" and ?b = "snd (quotient_of \<bar>x\<bar>)"
  let ?k = "bitlen ?a - bitlen ?b"
  have pos: "0 < \<bar>x\<bar>" using assms by simp
  note q = quotient_of_pos[OF pos]
  show ?thesis
  proof (cases "2 powi ?k \<le> \<bar>x\<bar>")
    case False
    then show ?thesis by (simp add: exponent_def Let_def)
  next
    case True
    have a: "?a < 2 ^ nat (bitlen ?a)" using bitlen_bounds[of ?a] q by simp
    have b: "2 ^ nat (bitlen ?b - 1) \<le> ?b" using bitlen_bounds[of ?b] q by simp
    have la: "0 \<le> bitlen ?a" by (rule bitlen_nonneg)
    have lb: "1 \<le> bitlen ?b" using q bitlen_eq_zero_iff[of ?b] bitlen_nonneg[of ?b] by linarith
    have ra: "(of_int ?a :: rat) < 2 powi (bitlen ?a)"
    proof -
      have "(of_int ?a :: rat) < of_int (2 ^ nat (bitlen ?a))" using a by (simp only: of_int_less_iff)
      then show ?thesis using la by (simp add: power_int_def)
    qed
    have rb: "(2::rat) powi (bitlen ?b - 1) \<le> of_int ?b"
    proof -
      have "(of_int (2 ^ nat (bitlen ?b - 1)) :: rat) \<le> of_int ?b" using b by (simp only: of_int_le_iff)
      then show ?thesis using lb by (simp add: power_int_def)
    qed
    have bp: "0 < (of_int ?b :: rat)" using q by simp
    have "\<bar>x\<bar> = of_int ?a / of_int ?b" using q by simp
    also have "\<dots> < 2 powi (bitlen ?a) / of_int ?b"
      using ra bp by (simp add: divide_strict_right_mono)
    also have "\<dots> \<le> 2 powi (bitlen ?a) / 2 powi (bitlen ?b - 1)"
      using rb bp by (intro divide_left_mono) (simp_all add: mult_pos_pos)
    also have "\<dots> = 2 powi (bitlen ?a - (bitlen ?b - 1))"
      by (simp only: pow2_diff)
    also have "\<dots> = 2 powi (?k + 1)"
      by (simp add: algebra_simps)
    finally show ?thesis using True by (simp add: exponent_def Let_def)
  qed
qed

lemma roundHalfEven_error: "\<bar>of_int (roundHalfEven m) - m\<bar> \<le> 1 / 2"
proof -
  define r where "r = m - of_int \<lfloor>m\<rfloor>"
  have r: "0 \<le> r" "r < 1" unfolding r_def by linarith+
  have m: "m = of_int \<lfloor>m\<rfloor> + r" unfolding r_def by simp
  consider "r < 1 / 2" | "1 / 2 < r" | "r = 1 / 2" by linarith
  then show ?thesis
  proof cases
    case 1
    then have "roundHalfEven m = \<lfloor>m\<rfloor>" by (simp add: roundHalfEven_def r_def)
    then have "of_int (roundHalfEven m) - m = - r" by (simp add: r_def)
    then show ?thesis using r 1 by simp
  next
    case 2
    then have "roundHalfEven m = \<lfloor>m\<rfloor> + 1" by (simp add: roundHalfEven_def r_def)
    then have "of_int (roundHalfEven m) - m = 1 - r" by (simp add: r_def)
    then show ?thesis using r 2 by simp
  next
    case 3
    then have "roundHalfEven m = \<lfloor>m\<rfloor> \<or> roundHalfEven m = \<lfloor>m\<rfloor> + 1"
      by (simp add: roundHalfEven_def r_def)
    then have "of_int (roundHalfEven m) - m = - r \<or> of_int (roundHalfEven m) - m = 1 - r"
      by (auto simp: r_def)
    then show ?thesis using 3 by auto
  qed
qed

lemma round53_error:
  "\<bar>round53 x - x\<bar> \<le> \<bar>x\<bar> / 2 ^ 53"
proof (cases "x = 0")
  case True
  then show ?thesis by (simp add: round53_def roundTo_def)
next
  case False
  let ?q = "(2::rat) powi (exponent x - 52)"
  let ?m = "\<bar>x\<bar> / ?q"
  have q: "0 < ?q" by simp
  have "\<bar>round53 x - x\<bar> = \<bar>sgn x * (of_int (roundHalfEven ?m) * ?q) - sgn x * \<bar>x\<bar>\<bar>"
    using False by (simp add: round53_def roundTo_def sgn_mult_abs)
  also have "\<dots> = \<bar>sgn x\<bar> * \<bar>of_int (roundHalfEven ?m) * ?q - \<bar>x\<bar>\<bar>"
    by (simp only: right_diff_distrib[symmetric] abs_mult)
  also have "\<dots> = \<bar>of_int (roundHalfEven ?m) * ?q - ?m * ?q\<bar>"
    using False q by (simp add: abs_sgn_eq)
  also have "\<dots> = \<bar>of_int (roundHalfEven ?m) - ?m\<bar> * ?q"
    using q by (simp only: left_diff_distrib[symmetric] abs_mult abs_of_pos)
  also have "\<dots> \<le> 1 / 2 * ?q"
    using roundHalfEven_error[of ?m] q by (intro mult_right_mono) simp_all
  also have "\<dots> = 2 powi exponent x / 2 ^ 53"
    by (simp add: pow2_diff)
  also have "\<dots> \<le> \<bar>x\<bar> / 2 ^ 53"
    using exponent_lower[OF False] by (simp add: divide_right_mono)
  finally show ?thesis .
qed

lemma round53_strict:
  assumes "0 \<le> x" "x < y" "x + y < (y - x) * 2 ^ 53"
  shows "round53 x < round53 y"
proof -
  have "round53 x \<le> x + x / 2 ^ 53" using round53_error[of x] assms(1) by (simp add: abs_if split: if_splits)
  moreover have "y - y / 2 ^ 53 \<le> round53 y"
    using round53_error[of y] assms(1,2) by (simp add: abs_if split: if_splits)
  moreover have "x + x / 2 ^ 53 < y - y / 2 ^ 53"
  proof -
    have "(x + y) / 2 ^ 53 < y - x" using assms(3) by (simp add: divide_less_eq)
    then show ?thesis by (simp add: add_divide_distrib)
  qed
  ultimately show ?thesis by linarith
qed

lemma pow2_less_imp: "(2::rat) powi a < 2 powi b \<Longrightarrow> a < b"
  using power_int_increasing[of b a "2::rat"] by (cases "a < b") auto

lemma pow2_add: "(2::rat) powi (a + b) = 2 powi a * 2 powi b"
  by (rule power_int_add) simp

lemma pow2_nat: "0 \<le> d \<Longrightarrow> (2::rat) powi d = of_int (2 ^ nat d)"
  by (simp add: power_int_def)

lemma roundHalfEven_of_int [simp]: "roundHalfEven (of_int z) = z"
  by (simp add: roundHalfEven_def)

lemma round53_exact:
  assumes "\<bar>M\<bar> < 2 ^ 53"
  shows "round53 (of_int M * 2 powi k) = of_int M * 2 powi k"
proof (cases "M = 0")
  case True
  then show ?thesis by (simp add: round53_def roundTo_def)
next
  case False
  let ?y = "of_int M * (2::rat) powi k"
  let ?e = "exponent ?y"
  have y0: "?y \<noteq> 0" using False by simp
  have ay: "\<bar>?y\<bar> = of_int \<bar>M\<bar> * 2 powi k" by (simp add: abs_mult)
  have "(of_int \<bar>M\<bar> :: rat) < of_int (2 ^ 53)" using assms by (simp only: of_int_less_iff)
  then have "\<bar>?y\<bar> < 2 ^ 53 * 2 powi k" unfolding ay by (intro mult_strict_right_mono) simp_all
  also have "\<dots> = 2 powi (53 + k)" by (simp add: pow2_add)
  finally have "(2::rat) powi ?e < 2 powi (53 + k)" using exponent_lower[OF y0] by linarith
  then have e: "?e < 53 + k" by (rule pow2_less_imp)
  define d where "d = k - (?e - 52)"
  have d: "0 \<le> d" using e by (simp add: d_def)
  have kd: "k = d + (?e - 52)" by (simp add: d_def)
  have "\<bar>?y\<bar> / 2 powi (?e - 52) = of_int \<bar>M\<bar> * (2 powi k / 2 powi (?e - 52))" unfolding ay by simp
  also have "\<dots> = of_int \<bar>M\<bar> * 2 powi d" by (simp only: pow2_diff[symmetric] d_def)
  also have "\<dots> = of_int (\<bar>M\<bar> * 2 ^ nat d)" using d by (simp add: pow2_nat)
  finally have m: "\<bar>?y\<bar> / 2 powi (?e - 52) = of_int (\<bar>M\<bar> * 2 ^ nat d)" .
  have "round53 ?y = sgn ?y * (of_int (\<bar>M\<bar> * 2 ^ nat d) * 2 powi (?e - 52))"
    using y0 by (simp only: round53_def roundTo_def m roundHalfEven_of_int if_False)
  also have "of_int (\<bar>M\<bar> * 2 ^ nat d) * (2::rat) powi (?e - 52) = of_int \<bar>M\<bar> * (2 powi d * 2 powi (?e - 52))"
    using d by (simp add: pow2_nat)
  also have "\<dots> = \<bar>?y\<bar>" unfolding ay by (simp only: pow2_add[symmetric] kd[symmetric])
  finally show ?thesis by (simp only: sgn_mult_abs)
qed

lemma roundHalfEven_bounds: "\<lfloor>m\<rfloor> \<le> roundHalfEven m \<and> roundHalfEven m \<le> \<lfloor>m\<rfloor> + 1"
  by (simp add: roundHalfEven_def)

lemma round53_representable:
  "\<exists>M k. round53 x = of_int M * 2 powi k \<and> \<bar>M\<bar> < 2 ^ 53"
proof (cases "x = 0")
  case True
  then show ?thesis by (intro exI[of _ 0]) (simp add: round53_def roundTo_def)
next
  case False
  let ?e = "exponent x"
  let ?q = "(2::rat) powi (?e - 52)"
  let ?m = "\<bar>x\<bar> / ?q"
  let ?R = "roundHalfEven ?m"
  obtain s :: int where s: "sgn x = of_int s" "\<bar>s\<bar> = 1"
  proof (cases "0 < x")
    case True
    then show ?thesis using that[of 1] by simp
  next
    case neg: False
    then have "x < 0" using False by simp
    then show ?thesis using that[of "- 1"] by simp
  qed
  have r: "round53 x = of_int s * (of_int ?R * ?q)" using False s by (simp add: round53_def roundTo_def)
  have "?m < 2 powi (?e + 1) / ?q" using exponent_upper[OF False] by (simp add: divide_strict_right_mono)
  also have "\<dots> = 2 powi 53" by (simp only: pow2_diff[symmetric]) simp
  finally have mu: "?m < 2 ^ 53" by simp
  have "0 \<le> ?m" by simp
  then have fl0: "0 \<le> \<lfloor>?m\<rfloor>" by simp
  have "\<lfloor>?m\<rfloor> < 2 ^ 53" using mu by (simp add: floor_less_iff)
  then have R: "0 \<le> ?R" "?R \<le> 2 ^ 53" using roundHalfEven_bounds[of ?m] fl0 by linarith+
  show ?thesis
  proof (cases "?R = 2 ^ 53")
    case True
    have "round53 x = of_int s * ((2::rat) powi 53 * ?q)" unfolding r True by simp
    also have "\<dots> = of_int s * 2 powi (?e + 1)" by (simp only: pow2_add[symmetric]) (simp add: add.commute)
    finally show ?thesis using s(2) by (intro exI[of _ s] exI[of _ "?e + 1"]) simp
  next
    case False
    then have "\<bar>s * ?R\<bar> < 2 ^ 53" using R s(2) by (simp add: abs_mult)
    then show ?thesis unfolding r by (intro exI[of _ "s * ?R"] exI[of _ "?e - 52"]) simp
  qed
qed

lemma p1022: "(2::rat) powi (- 1022) = 1 / 2 ^ 1022"
  by (simp add: power_int_minus field_simps)

lemma exponent_normal:
  assumes "1 / 2 ^ 1022 \<le> \<bar>x\<bar>"
  shows "- 1022 \<le> exponent x"
proof -
  have x: "x \<noteq> 0" using assms by auto
  have "(2::rat) powi (- 1022) < 2 powi (exponent x + 1)"
    using assms exponent_upper[OF x] by (simp only: p1022)
  then have "- 1022 < exponent x + 1" by (rule pow2_less_imp)
  then show ?thesis by simp
qed

lemma exponent_subnormal:
  assumes "x \<noteq> 0" "\<bar>x\<bar> < 1 / 2 ^ 1022"
  shows "exponent x < - 1022"
proof -
  have "(2::rat) powi (exponent x) < 2 powi (- 1022)"
    using assms(2) exponent_lower[OF assms(1)] by (simp only: p1022)
  then show ?thesis by (rule pow2_less_imp)
qed

lemma round64_normal: "1 / 2 ^ 1022 \<le> \<bar>x\<bar> \<Longrightarrow> round64 x = round53 x"
  using exponent_normal[of x] by (simp add: round64_def round53_def max_def)

lemma round53_zero [simp]: "round53 0 = 0"
  by (simp add: round53_def)

lemma round64_zero [simp]: "round64 0 = 0"
  by (simp add: round64_def)

lemma exponent_minus [simp]: "exponent (- x) = exponent x"
  by (simp add: exponent_def)

lemma roundTo_minus: "roundTo e (- x) = - roundTo e x"
  by (simp add: roundTo_def sgn_minus)

lemma round64_minus: "round64 (- x) = - round64 x"
  by (simp add: round64_def roundTo_minus)

lemma roundHalfEven_nonneg: "0 \<le> m \<Longrightarrow> 0 \<le> roundHalfEven m"
  using roundHalfEven_bounds[of m] by (simp add: order_trans[of 0 "\<lfloor>m\<rfloor>"])

lemma roundTo_nonneg: "0 \<le> x \<Longrightarrow> 0 \<le> roundTo e x"
  by (simp add: roundTo_def roundHalfEven_nonneg sgn_if)

lemma round64_nonneg: "0 \<le> x \<Longrightarrow> 0 \<le> round64 x"
  by (simp add: round64_def roundTo_nonneg)

lemma round64_nonpos: "x \<le> 0 \<Longrightarrow> round64 x \<le> 0"
  using round64_nonneg[of "- x"] by (simp add: round64_minus)

lemma round64_subnormal:
  assumes "\<bar>x\<bar> < 1 / 2 ^ 1022"
  shows "\<bar>round64 x\<bar> \<le> 1 / 2 ^ 1022"
proof (cases "x = 0")
  case True
  then show ?thesis by simp
next
  case False
  let ?q = "(2::rat) powi (- 1074)"
  let ?m = "\<bar>x\<bar> / ?q"
  have q: "?q = 1 / 2 ^ 1074" by (simp add: power_int_minus field_simps)
  have e: "max (exponent x) (- 1022) - 52 = - 1074"
    using exponent_subnormal[OF False assms] by simp
  have r: "round64 x = sgn x * (of_int (roundHalfEven ?m) * ?q)"
    using False by (simp only: round64_def roundTo_def e if_False)
  have "?m = \<bar>x\<bar> * 2 ^ 1074" by (simp add: q)
  also have "\<dots> < 1 / 2 ^ 1022 * 2 ^ 1074" using assms by (intro mult_strict_right_mono) simp_all
  also have "\<dots> = 2 ^ 52" by simp
  finally have "\<lfloor>?m\<rfloor> < 2 ^ 52" by (simp only: floor_less_iff of_int_power of_int_numeral)
  then have u: "roundHalfEven ?m \<le> 2 ^ 52" using roundHalfEven_bounds[of ?m] by linarith
  have l: "0 \<le> roundHalfEven ?m" by (rule roundHalfEven_nonneg) simp
  have "(of_int (roundHalfEven ?m) :: rat) \<le> of_int (2 ^ 52)" using u by (simp only: of_int_le_iff)
  then have "(of_int (roundHalfEven ?m) :: rat) * ?q \<le> 2 ^ 52 * ?q"
    by (intro mult_right_mono) simp_all
  also have "\<dots> = 1 / 2 ^ 1022" by (simp add: q)
  finally have b: "(of_int (roundHalfEven ?m) :: rat) * ?q \<le> 1 / 2 ^ 1022" .
  have l': "0 \<le> (of_int (roundHalfEven ?m) :: rat) * ?q" using l by simp
  have "\<bar>round64 x\<bar> = \<bar>sgn x\<bar> * \<bar>of_int (roundHalfEven ?m) * ?q\<bar>"
    unfolding r by (simp only: abs_mult)
  also have "\<dots> = of_int (roundHalfEven ?m) * ?q"
    using False l' by (simp only: abs_sgn_eq abs_of_nonneg if_False mult_1)
  finally show ?thesis using b by simp
qed

lemma round64_exact:
  assumes "\<bar>M\<bar> < 2 ^ 53" "1 / 2 ^ 1022 \<le> \<bar>of_int M * 2 powi k :: rat\<bar>"
  shows "round64 (of_int M * 2 powi k) = of_int M * 2 powi k"
  using round64_normal[OF assms(2)] round53_exact[OF assms(1)] by simp

lemma round64_of_nat:
  assumes "int n < 2 ^ 53"
  shows "round64 (of_nat n) = of_nat n"
proof (cases "n = 0")
  case True
  then show ?thesis by simp
next
  case False
  have m: "\<bar>int n\<bar> < 2 ^ 53" using assms by simp
  have "(1::rat) \<le> of_nat n" using False by simp
  then have "1 / 2 ^ 1022 \<le> \<bar>of_int (int n) * 2 powi 0 :: rat\<bar>" by simp
  from round64_exact[OF m this] show ?thesis by simp
qed

lemma round64_floor_half:
  assumes "0 \<le> x"
  shows "\<lfloor>round64 (round64 x / 2)\<rfloor> = \<lfloor>round64 x / 2\<rfloor>"
proof (cases "round64 x / 2 < 1 / 2 ^ 1022")
  case True
  have y: "0 \<le> round64 x / 2" using round64_nonneg[OF assms] by simp
  then have "\<bar>round64 x / 2\<bar> < 1 / 2 ^ 1022" using True by simp
  then have "\<bar>round64 (round64 x / 2)\<bar> \<le> 1 / 2 ^ 1022" by (rule round64_subnormal)
  moreover have "0 \<le> round64 (round64 x / 2)" using y by (rule round64_nonneg)
  moreover have "(1::rat) / 2 ^ 1022 < 1" by simp
  ultimately have "0 \<le> round64 (round64 x / 2) \<and> round64 (round64 x / 2) < 1" by linarith
  then have "\<lfloor>round64 (round64 x / 2)\<rfloor> = 0" by (simp add: floor_eq_iff)
  moreover have "round64 x / 2 < 1" using True \<open>(1::rat) / 2 ^ 1022 < 1\<close> by linarith
  then have "\<lfloor>round64 x / 2\<rfloor> = 0" using y by (simp add: floor_eq_iff)
  ultimately show ?thesis by simp
next
  case False
  then have big: "1 / 2 ^ 1022 \<le> round64 x / 2" by simp
  have "\<not> \<bar>x\<bar> < 1 / 2 ^ 1022"
  proof
    assume "\<bar>x\<bar> < 1 / 2 ^ 1022"
    then have "\<bar>round64 x\<bar> \<le> 1 / 2 ^ 1022" by (rule round64_subnormal)
    then show False using big by simp
  qed
  then have r: "round64 x = round53 x" by (simp add: round64_normal)
  obtain M k where Mk: "round53 x = of_int M * 2 powi k" "\<bar>M\<bar> < 2 ^ 53"
    using round53_representable[of x] by blast
  have h: "round64 x / 2 = of_int M * 2 powi (k - 1)" unfolding r Mk(1) by (simp add: pow2_diff)
  have "1 / 2 ^ 1022 \<le> \<bar>of_int M * 2 powi (k - 1) :: rat\<bar>" using big unfolding h by simp
  from round64_exact[OF Mk(2) this] show ?thesis unfolding h by simp
qed

lemma round64_strict:
  assumes "x = 0 \<or> 1 / 2 ^ 1022 \<le> x" "1 / 2 ^ 1022 \<le> y" "x < y" "x + y < (y - x) * 2 ^ 53"
  shows "round64 x < round64 y"
proof -
  have x0: "0 \<le> x" using assms(1) by auto
  have "1 / 2 ^ 1022 \<le> x \<Longrightarrow> 1 / 2 ^ 1022 \<le> \<bar>x\<bar>" by simp
  then have rx: "round64 x = round53 x" using assms(1) by (auto simp: round64_normal)
  have "1 / 2 ^ 1022 \<le> \<bar>y\<bar>" using assms(2) by simp
  then have ry: "round64 y = round53 y" by (rule round64_normal)
  show ?thesis unfolding rx ry using x0 assms(3,4) by (rule round53_strict)
qed

lemma round64_error:
  assumes "1 / 2 ^ 1022 \<le> \<bar>x\<bar>"
  shows "\<bar>round64 x - x\<bar> \<le> \<bar>x\<bar> / 2 ^ 53"
  using round53_error[of x] round64_normal[OF assms] by simp

lemma round64_bound:
  assumes "0 \<le> x" "x < 2 ^ 52"
  shows "round64 x < 2 ^ 52 + 1"
proof (cases "x < 1 / 2 ^ 1022")
  case True
  then have "\<bar>x\<bar> < 1 / 2 ^ 1022" using assms(1) by simp
  then have "\<bar>round64 x\<bar> \<le> 1 / 2 ^ 1022" by (rule round64_subnormal)
  moreover have "(1::rat) / 2 ^ 1022 < 1" by simp
  ultimately show ?thesis by simp
next
  case False
  then have "1 / 2 ^ 1022 \<le> \<bar>x\<bar>" by simp
  then have "\<bar>round64 x - x\<bar> \<le> \<bar>x\<bar> / 2 ^ 53" by (rule round64_error)
  then have "round64 x \<le> x + x / 2 ^ 53" using assms(1) by (simp add: abs_if split: if_splits)
  moreover have "x / 2 ^ 53 < 2 ^ 52 / 2 ^ 53" using assms(2) by (simp add: divide_strict_right_mono)
  ultimately show ?thesis using assms(2) by simp
qed

subsection \<open>The sample schedule\<close>

lemma decimation_pos: "0 < decimation v"
  by (cases v) (simp_all add: decimation_def frameStep_def)

lemma decimation_ge_1: "1 \<le> decimation v"
  by (cases v) (simp_all add: decimation_def frameStep_def)

lemma totalFrames_decimation:
  assumes "0 \<le> durationSec p * fps p"
  shows "totalFrames v p = \<lfloor>round64 (durationSec p * fps p) / decimation v\<rfloor>"
proof (cases v)
  case Plain
  then show ?thesis by (simp add: totalFrames_def decimation_def Math_floor_def)
next
  case Decimated
  then show ?thesis
    using round64_floor_half[OF assms]
    by (simp add: totalFrames_def decimation_def Math_floor_def frameStep_def)
qed

lemma sampleTime_decimation:
  assumes "int i < 2 ^ 52"
  shows "sampleTime v p i = round64 (of_nat i * decimation v / fps p)"
proof (cases v)
  case Plain
  then show ?thesis by (simp add: sampleTime_def decimation_def)
next
  case Decimated
  have "int (i * 2) < 2 ^ 53" using assms by simp
  then have "round64 (of_nat (i * 2)) = of_nat (i * 2)" by (rule round64_of_nat)
  then have "round64 (of_nat i * 2) = of_nat i * 2" by simp
  then show ?thesis using Decimated by (simp add: sampleTime_def decimation_def frameStep_def)
qed

lemma totalFrames_bound:
  assumes "0 \<le> durationSec p * fps p" "durationSec p * fps p < 2 ^ 52"
  shows "totalFrames v p \<le> 2 ^ 52"
proof -
  let ?r = "round64 (durationSec p * fps p)"
  have r: "?r < 2 ^ 52 + 1" using assms by (rule round64_bound)
  have r0: "0 \<le> ?r" using assms(1) by (rule round64_nonneg)
  have "?r / decimation v \<le> ?r / 1"
    using r0 decimation_ge_1[of v] by (intro divide_left_mono) simp_all
  then have "?r / decimation v < of_int (2 ^ 52 + 1)" using r by simp
  then have "\<lfloor>?r / decimation v\<rfloor> < 2 ^ 52 + 1" by (simp only: floor_less_iff)
  then show ?thesis by (simp add: totalFrames_decimation[OF assms(1)])
qed

lemma captureLoop_all:
  assumes "\<And>k. e_setTimelineTime env k = None" "\<And>k. e_screenshot env k = None"
  shows "map timeSec (fst (captureLoop v env p n i job)) = map (sampleTime v p) [i..<nat n]
       \<and> map ordinal (fst (captureLoop v env p n i job)) = [i..<nat n]
       \<and> length (fst (snd (captureLoop v env p n i job))) = nat n - i
       \<and> snd (snd (captureLoop v env p n i job)) = None"
  using assms
proof (induction v env p n i job rule: captureLoop.induct)
  case (1 v env p n i job)
  note e1 = "1.prems"(1) and e2 = "1.prems"(2)
  show ?case
  proof (cases "int i < n")
    case True
    then have "i < nat n" by linarith
    then have upt: "[i..<nat n] = i # [Suc i..<nat n]" by (simp add: upt_conv_Cons)
    have sd: "nat n - i = Suc (nat n - Suc i)" using \<open>i < nat n\<close> by simp
    show ?thesis
      using True "1.IH"[OF True e1 e2 refl e1 e2] e1 e2
      by (subst (1 2 3 4) captureLoop.simps) (simp add: Let_def upt sd)
  next
    case False
    then have "nat n \<le> i" by linarith
    then show ?thesis using False by (subst (1 2 3 4) captureLoop.simps) simp
  qed
qed

lemma sorted_times:
  assumes "1 \<le> (d::rat)" "0 < (f::rat)" "f \<le> 2 ^ 1022" "int n \<le> 2 ^ 52"
  shows "sorted_wrt (<) (map (\<lambda>i. round64 (of_nat i * d / f)) [0..<n])"
proof -
  have df: "0 < d / f" using assms(1,2) by simp
  have "1 / 2 ^ 1022 \<le> 1 / f" using assms(2,3) by (intro divide_left_mono) simp_all
  also have "\<dots> \<le> d / f" using assms(1,2) by (intro divide_right_mono) simp_all
  finally have unit: "1 / 2 ^ 1022 \<le> d / f" .
  have normal: "1 / 2 ^ 1022 \<le> of_nat j * d / f" if "0 < j" for j :: nat
  proof -
    have "(1::rat) \<le> of_nat j" using that by simp
    then have "1 * (d / f) \<le> of_nat j * (d / f)" using df by (intro mult_right_mono) simp_all
    then have "d / f \<le> of_nat j * d / f" by (simp only: mult_1 times_divide_eq_right)
    with unit show ?thesis by (rule order_trans)
  qed
  have step: "round64 (of_nat i * d / f) < round64 (of_nat j * d / f)" if "i < j" "j < n" for i j
  proof -
    have x: "of_nat i * d / f = 0 \<or> 1 / 2 ^ 1022 \<le> of_nat i * d / f"
      using normal[of i] by (cases "i = 0") simp_all
    have y: "1 / 2 ^ 1022 \<le> of_nat j * d / f" using normal[of j] that(1) by simp
    have "(of_nat i :: rat) < of_nat j" using that(1) by simp
    then have "of_nat i * (d / f) < of_nat j * (d / f)" using df by (intro mult_strict_right_mono)
    then have lt: "of_nat i * d / f < of_nat j * d / f" by simp
    have "int i + int j < 2 ^ 53" using that assms(4) by simp
    moreover have "(2::int) ^ 53 \<le> (int j - int i) * 2 ^ 53" using that(1) by simp
    ultimately have "int i + int j < (int j - int i) * 2 ^ 53" by linarith
    then have "(of_int (int i + int j) :: rat) < of_int ((int j - int i) * 2 ^ 53)"
      by (simp only: of_int_less_iff)
    then have "(of_nat i + of_nat j :: rat) < (of_nat j - of_nat i) * 2 ^ 53" by simp
    then have "(of_nat i + of_nat j) * (d / f) < (of_nat j - of_nat i) * 2 ^ 53 * (d / f)"
      using df by (intro mult_strict_right_mono)
    then have sum: "of_nat i * d / f + of_nat j * d / f
        < (of_nat j * d / f - of_nat i * d / f) * 2 ^ 53"
      by (simp add: algebra_simps)
    show ?thesis using x y lt sum by (rule round64_strict)
  qed
  have "sorted_wrt (<) [0..<n]" by simp
  then have "sorted_wrt (\<lambda>i j. round64 (of_nat i * d / f) < round64 (of_nat j * d / f)) [0..<n]"
    by (rule sorted_wrt_mono_rel[rotated]) (simp add: step)
  then show ?thesis by (simp add: sorted_wrt_map)
qed

text \<open>
  Claim C1, as stated, fails: the server computes in binary64, and neither the number of
  frames nor the times are the exact quotients. Take for \<open>durationSec\<close> the number the
  server holds for 0.7, which is a little less than seven tenths, and \<open>fps = 10\<close>: the
  exact product is less than 7 and its floor is 6, but the binary64 product is 7 and seven
  frames are captured; the second time is the binary64 number next to one tenth, not
  \<open>1 / 10\<close>. Reading the claim on the decimals of the request instead, take
  \<open>durationSec = 8.2\<close> and \<open>fps = 30\<close>: \<open>floor(8.2 * 30)\<close> is 246 (123 when
  decimated), but the server captures 245 frames (122).
\<close>

theorem timeline_samples_counterexample:
  "0 < durationSec short_params \<and> 0 < fps short_params
   \<and> (\<forall>k. e_setTimelineTime env_ok k = None \<and> e_screenshot env_ok k = None)
   \<and> length (fst (captureLoop Plain env_ok short_params
         (totalFrames Plain short_params) 0 (newJob ''job1''))) = 7
   \<and> \<lfloor>durationSec short_params * fps short_params / decimation Plain\<rfloor> = 6
   \<and> map timeSec (fst (captureLoop Plain env_ok short_params
         (totalFrames Plain short_params) 0 (newJob ''job1''))) ! 1
        = 3602879701896397 / 36028797018963968
   \<and> map timeSec (fst (captureLoop Plain env_ok short_params
         (totalFrames Plain short_params) 0 (newJob ''job1''))) ! 1
        \<noteq> of_nat 1 * decimation Plain / fps short_params
   \<and> totalFrames Plain long_params = 245
   \<and> totalFrames Decimated long_params = 122
   \<and> \<lfloor>(82 / 10 :: rat) * 30 / decimation Plain\<rfloor> = 246
   \<and> \<lfloor>(82 / 10 :: rat) * 30 / decimation Decimated\<rfloor> = 123"
proof -
  have 1: "0 < durationSec short_params" by code_simp
  have 2: "0 < fps short_params" by code_simp
  have 3: "\<forall>k. e_setTimelineTime env_ok k = None \<and> e_screenshot env_ok k = None"
    by (simp add: env_ok_def)
  have 4: "length (fst (captureLoop Plain env_ok short_params
         (totalFrames Plain short_params) 0 (newJob ''job1''))) = 7" by code_simp
  have 5: "\<lfloor>durationSec short_params * fps short_params / decimation Plain\<rfloor> = 6" by code_simp
  have 6: "map timeSec (fst (captureLoop Plain env_ok short_params
         (totalFrames Plain short_params) 0 (newJob ''job1''))) ! 1
        = 3602879701896397 / 36028797018963968" by code_simp
  have 7: "map timeSec (fst (captureLoop Plain env_ok short_params
         (totalFrames Plain short_params) 0 (newJob ''job1''))) ! 1
        \<noteq> of_nat 1 * decimation Plain / fps short_params" by code_simp
  have 8: "totalFrames Plain long_params = 245" by code_simp
  have 9: "totalFrames Decimated long_params = 122" by code_simp
  have 10: "\<lfloor>(82 / 10 :: rat) * 30 / decimation Plain\<rfloor> = 246" by code_simp
  have 11: "\<lfloor>(82 / 10 :: rat) * 30 / decimation Decimated\<rfloor> = 123" by code_simp
  show ?thesis using 1 2 3 4 5 6 7 8 9 10 11 by (intro conjI)
qed

text \<open>
  Claim C1, amended. For every configuration with \<open>durationSec > 0\<close>, a frame rate
  between \<open>2^-970\<close> and \<open>2^1022\<close> and a product \<open>durationSec * fps\<close> below \<open>2^52\<close>, in
  either server (decimation \<open>d\<close> 1 or 2), the frame-capture loop started by
  \<open>generateVideo\<close>, when no capture fails, hands the page the times
  \<open>round64 (i * d / fps)\<close> for \<open>i = 0, ..., N - 1\<close>, where
  \<open>N = floor (round64 (durationSec * fps) / d)\<close>: exactly \<open>N\<close> of them, strictly
  increasing, the first being 0. The bounds keep every intermediate result inside the
  range of binary64 and the frame counter below \<open>2^52\<close>.
\<close>

theorem timeline_samples:
  assumes "0 < durationSec p" "1 / 2 ^ 970 \<le> fps p" "fps p \<le> 2 ^ 1022"
    and "durationSec p * fps p < 2 ^ 52"
    and "\<forall>k. e_setTimelineTime env k = None \<and> e_screenshot env k = None"
  shows "map timeSec (fst (captureLoop v env p (totalFrames v p) 0 job))
           = map (\<lambda>i. round64 (of_nat i * decimation v / fps p))
               [0..<nat \<lfloor>round64 (durationSec p * fps p) / decimation v\<rfloor>]
       \<and> int (length (fst (captureLoop v env p (totalFrames v p) 0 job)))
           = \<lfloor>round64 (durationSec p * fps p) / decimation v\<rfloor>
       \<and> sorted_wrt (<) (map timeSec (fst (captureLoop v env p (totalFrames v p) 0 job)))
       \<and> (case fst (captureLoop v env p (totalFrames v p) 0 job) of
             [] \<Rightarrow> True | s # rest \<Rightarrow> timeSec s = 0)"
proof -
  let ?ss = "fst (captureLoop v env p (totalFrames v p) 0 job)"
  let ?N = "nat \<lfloor>round64 (durationSec p * fps p) / decimation v\<rfloor>"
  let ?t = "\<lambda>i. round64 (of_nat i * decimation v / fps p)"
  have f: "0 < fps p"
  proof -
    have "(0::rat) < 1 / 2 ^ 970" by simp
    then show ?thesis using assms(2) by (rule less_le_trans)
  qed
  have P: "0 \<le> durationSec p * fps p" using assms(1) f by simp
  have tf: "totalFrames v p = \<lfloor>round64 (durationSec p * fps p) / decimation v\<rfloor>"
    using P by (rule totalFrames_decimation)
  have N: "int ?N \<le> 2 ^ 52" using totalFrames_bound[OF P assms(4), of v] by (simp add: tf)
  have "map (sampleTime v p) [0..<?N] = map ?t [0..<?N]"
  proof (rule map_cong[OF refl])
    fix i assume "i \<in> set [0..<?N]"
    then have "i < ?N" by simp
    then have "int i < int ?N" by (simp only: of_nat_less_iff)
    then have "int i < 2 ^ 52" using N by (rule less_le_trans)
    then show "sampleTime v p i = ?t i" by (rule sampleTime_decimation)
  qed
  then have a: "map timeSec ?ss = map ?t [0..<?N]"
    using captureLoop_all[of env v p "totalFrames v p" 0 job] assms(5) by (simp add: tf)
  have len: "length ?ss = ?N" using arg_cong[OF a, of length] by simp
  have "0 \<le> round64 (durationSec p * fps p) / decimation v"
    using round64_nonneg[OF P] decimation_pos[of v] by simp
  then have "0 \<le> \<lfloor>round64 (durationSec p * fps p) / decimation v\<rfloor>" by simp
  then have b: "int (length ?ss) = \<lfloor>round64 (durationSec p * fps p) / decimation v\<rfloor>"
    by (simp only: len int_nat_eq if_True)
  have c: "sorted_wrt (<) (map timeSec ?ss)"
    unfolding a using decimation_ge_1 f assms(3) N by (rule sorted_times)
  have e: "(case ?ss of [] \<Rightarrow> True | s # rest \<Rightarrow> timeSec s = 0)"
  proof (cases ?ss)
    case Nil then show ?thesis by simp
  next
    case (Cons s rest)
    then have "0 < length ?ss" by simp
    then have "0 < ?N" by (simp only: len)
    then have "[0..<?N] = 0 # [Suc 0..<?N]" by (rule upt_conv_Cons)
    then have "map timeSec ?ss = ?t 0 # map ?t [Suc 0..<?N]"
      using a by (simp only: list.map)
    then show ?thesis by (simp add: Cons)
  qed
  show ?thesis using a b c e by (intro conjI)
qed

theorem timeline_samples_witness:
  "0 < durationSec short_params \<and> 1 / 2 ^ 970 \<le> fps short_params \<and> fps short_params \<le> 2 ^ 1022
   \<and> durationSec short_params * fps short_params < 2 ^ 52
   \<and> (\<forall>k. e_setTimelineTime env_ok k = None \<and> e_screenshot env_ok k = None)
   \<and> map timeSec (fst (captureLoop Plain env_ok short_params
          (totalFrames Plain short_params) 0 (newJob ''job1'')))
        = [0, 3602879701896397 / 36028797018963968, 3602879701896397 / 18014398509481984,
           5404319552844595 / 18014398509481984, 3602879701896397 / 9007199254740992,
           1 / 2, 5404319552844595 / 9007199254740992]
   \<and> map timeSec (fst (captureLoop Decimated env_ok short_params
          (totalFrames Decimated short_params) 0 (newJob ''job1'')))
        = [0, 3602879701896397 / 18014398509481984, 3602879701896397 / 9007199254740992]
   \<and> sorted_wrt (<) (map timeSec (fst (captureLoop Plain env_ok short_params
          (totalFrames Plain short_params) 0 (newJob ''job1''))))"
proof -
  have d: "durationSec short_params = 3152519739159347 / 4503599627370496" by code_simp
  have r: "fps short_params = 10" by code_simp
  have h1: "0 < durationSec short_params" by (simp add: d)
  have h2: "1 / 2 ^ 970 \<le> fps short_params" by (simp add: r)
  have h3: "fps short_params \<le> 2 ^ 1022" by (simp add: r)
  have h4: "durationSec short_params * fps short_params < 2 ^ 52" by (simp add: d r)
  have h5: "\<forall>k. e_setTimelineTime env_ok k = None \<and> e_screenshot env_ok k = None"
    by (simp add: env_ok_def)
  have p: "map (\<lambda>i. round64 (of_nat i * decimation Plain / fps short_params))
        [0..<nat \<lfloor>round64 (durationSec short_params * fps short_params) / decimation Plain\<rfloor>]
      = [0, 3602879701896397 / 36028797018963968, 3602879701896397 / 18014398509481984,
         5404319552844595 / 18014398509481984, 3602879701896397 / 9007199254740992,
         1 / 2, 5404319552844595 / 9007199254740992]"
    by code_simp
  have q: "map (\<lambda>i. round64 (of_nat i * decimation Decimated / fps short_params))
        [0..<nat \<lfloor>round64 (durationSec short_params * fps short_params) / decimation Decimated\<rfloor>]
      = [0, 3602879701896397 / 18014398509481984, 3602879701896397 / 9007199254740992]"
    by code_simp
  note t1 = timeline_samples[OF h1 h2 h3 h4 h5, of Plain "newJob ''job1''"]
  note t2 = timeline_samples[OF h1 h2 h3 h4 h5, of Decimated "newJob ''job1''"]
  have a: "map timeSec (fst (captureLoop Plain env_ok short_params
          (totalFrames Plain short_params) 0 (newJob ''job1'')))
        = [0, 3602879701896397 / 36028797018963968, 3602879701896397 / 18014398509481984,
           5404319552844595 / 18014398509481984, 3602879701896397 / 9007199254740992,
           1 / 2, 5404319552844595 / 9007199254740992]"
    using t1[THEN conjunct1] by (simp only: p)
  have b: "map timeSec (fst (captureLoop Decimated env_ok short_params
          (totalFrames Decimated short_params) 0 (newJob ''job1'')))
        = [0, 3602879701896397 / 18014398509481984, 3602879701896397 / 9007199254740992]"
    using t2[THEN conjunct1] by (simp only: q)
  note c = t1[THEN conjunct2, THEN conjunct2, THEN conjunct1]
  show ?thesis using h1 h2 h3 h4 h5 a b c by (intro conjI)
qed

subsection \<open>Frame file names\<close>

lemma length_digits_fixed [simp]: "length (digits_fixed k n) = k"
  by (induction k arbitrary: n) auto

lemma length_String_nat_le: "n < 10 ^ k \<Longrightarrow> 0 < k \<Longrightarrow> length (String_nat n) \<le> k"
proof (induction k arbitrary: n)
  case 0 then show ?case by simp
next
  case (Suc k)
  show ?case
  proof (cases "n < 10")
    case True then show ?thesis by (simp add: String_nat.simps)
  next
    case False
    then have k: "0 < k" using Suc.prems by (cases k) auto
    have "n div 10 < 10 ^ k" using Suc.prems by (simp add: less_mult_imp_div_less mult.commute)
    from Suc.IH[OF this k] False show ?thesis by (subst String_nat.simps) simp
  qed
qed

lemma digit_zero: "digit_char 0 = CHR ''0''"
  by code_simp

lemma digits_fixed_zero: "digits_fixed k 0 = replicate k CHR ''0''"
  by (induction k) (simp_all add: digit_zero replicate_append_same)

lemma padStart_String_nat:
  "n < 10 ^ k \<Longrightarrow> 0 < k \<Longrightarrow> padStart k CHR ''0'' (String_nat n) = digits_fixed k n"
proof (induction k arbitrary: n)
  case 0 then show ?case by simp
next
  case (Suc k)
  show ?case
  proof (cases "n < 10")
    case True then show ?thesis by (simp add: String_nat.simps padStart_def digits_fixed_zero)
  next
    case False
    then have k: "0 < k" using Suc.prems by (cases k) auto
    have lt: "n div 10 < 10 ^ k" using Suc.prems by (simp add: less_mult_imp_div_less mult.commute)
    have len: "length (String_nat (n div 10)) \<le> k" by (rule length_String_nat_le[OF lt k])
    have "padStart (Suc k) CHR ''0'' (String_nat n)
        = padStart k CHR ''0'' (String_nat (n div 10)) @ [digit_char (n mod 10)]"
      using False len by (subst String_nat.simps) (simp add: padStart_def Suc_diff_le)
    then show ?thesis using Suc.IH[OF lt k] by simp
  qed
qed

lemma of_char_digit: "d < 10 \<Longrightarrow> of_char (digit_char d) = 48 + d"
  by (simp add: digit_char_def)

lemma lex_less_append_same: "lex_less (p @ xs) (p @ ys) = lex_less xs ys"
  by (induction p) auto

lemma lex_less_snoc:
  "length xs = length ys \<Longrightarrow>
   lex_less (xs @ [a]) (ys @ [b]) = (lex_less xs ys \<or> (xs = ys \<and> (of_char a :: nat) < of_char b))"
  by (induction xs ys rule: list_induct2) auto

lemma lex_less_append_tails:
  "length xs = length ys \<Longrightarrow> lex_less xs ys \<Longrightarrow> lex_less (xs @ s) (ys @ t)"
  by (induction xs ys rule: list_induct2) auto

lemma digits_fixed_mono:
  "m < n \<Longrightarrow> n < 10 ^ k \<Longrightarrow> lex_less (digits_fixed k m) (digits_fixed k n)"
proof (induction k arbitrary: m n)
  case 0 then show ?case by simp
next
  case (Suc k)
  have lt: "n div 10 < 10 ^ k" using Suc.prems by (simp add: less_mult_imp_div_less mult.commute)
  consider "m div 10 < n div 10" | "m div 10 = n div 10" "m mod 10 < n mod 10"
    using Suc.prems(1)
    by (metis div_le_mono less_imp_le_nat linorder_neqE_nat mod_div_decomp
        nat_add_left_cancel_less not_le)
  then show ?case
  proof cases
    case 1
    from Suc.IH[OF 1 lt] show ?thesis by (simp add: lex_less_snoc)
  next
    case 2
    then show ?thesis by (simp add: lex_less_snoc of_char_digit)
  qed
qed

lemma padded_names_ordered:
  assumes "i < j" "j < 10 ^ k" "0 < k"
  shows "lex_less (pre @ padStart k CHR ''0'' (String_nat i) @ ext)
                  (pre @ padStart k CHR ''0'' (String_nat j) @ ext)"
proof -
  have "padStart k CHR ''0'' (String_nat i) = digits_fixed k i"
       "padStart k CHR ''0'' (String_nat j) = digits_fixed k j"
    using assms padStart_String_nat[of i k] padStart_String_nat[of j k] by simp_all
  moreover have "lex_less (digits_fixed k i) (digits_fixed k j)"
    using assms digits_fixed_mono[of i j k] by simp
  ultimately show ?thesis
    by (simp only: lex_less_append_same lex_less_append_tails length_digits_fixed)
qed

text \<open>
  Claim C9, as stated, fails: \<open>padStart(5, '0')\<close> pads to at least five digits and never
  truncates, so frame 100000 is named \<open>frame_100000.jpg\<close>, which sorts before
  \<open>frame_99999.jpg\<close>.
\<close>

theorem frame_names_counterexample:
  "(99999::nat) < 100000 \<and> \<not> lex_less (frame_name_jpg 99999) (frame_name_jpg 100000)
   \<and> lex_less (frame_name_jpg 100000) (frame_name_jpg 99999)"
  by (simp add: frame_name_jpg_def padStart_def String_nat.simps digit_char_def)

text \<open>
  Claim C9, amended. For any two frame ordinals \<open>i < j\<close> that fit the pad width
  (\<open>j < 100000\<close> for the five-digit \<open>.jpg\<close> names of the servers, \<open>j < 1000000\<close> for the
  six-digit \<open>.png\<close> names of the canvas services), the name of frame \<open>i\<close> is
  lexicographically less than the name of frame \<open>j\<close>.
\<close>

theorem frame_names_ordered:
  assumes "i < j"
  shows "(j < 100000 \<longrightarrow> lex_less (frame_name_jpg i) (frame_name_jpg j))
       \<and> (j < 1000000 \<longrightarrow> lex_less (frame_name_png i) (frame_name_png j))"
  using assms padded_names_ordered[of i j 5 "''frame_''" "''.jpg''"]
        padded_names_ordered[of i j 6 "''frame_''" "''.png''"]
  by (simp add: frame_name_jpg_def frame_name_png_def)

theorem frame_names_ordered_witness:
  "(99998::nat) < 99999 \<and> (99999::nat) < 100000
   \<and> lex_less (frame_name_jpg 99998) (frame_name_jpg 99999)
   \<and> lex_less (frame_name_png 99998) (frame_name_png 99999)"
  using frame_names_ordered[of 99998 99999] by simp

subsection \<open>The life of a job\<close>

lemma captureLoop_fields:
  "j \<in> set (fst (snd (captureLoop v env p n i job))) \<Longrightarrow>
     status j = status job \<and> outputFile j = outputFile job \<and> job_id j = job_id job"
proof (induction v env p n i job rule: captureLoop.induct)
  case (1 v env p n i job)
  show ?case
    using "1.prems" "1.IH"
    by (subst (asm) captureLoop.simps) (auto simp: Let_def split: if_splits option.splits)
qed

lemma onProgress_fields [simp]:
  "status (onProgress job x) = status job" "outputFile (onProgress job x) = outputFile job"
  "job_id (onProgress job x) = job_id job"
  by (simp_all add: onProgress_def split: option.splits)

lemma progressEvents_fields:
  "j \<in> set (progressEvents job ps) \<Longrightarrow>
     status j = status job \<and> outputFile j = outputFile job \<and> job_id j = job_id job"
  by (induction ps arbitrary: job) auto

lemma last_in: "last (a # xs) = a \<or> last (a # xs) \<in> set xs"
  by (induction xs arbitrary: a) auto

lemma tryBlock_statuses:
  assumes "status job = Rendering"
  shows "\<exists>pre. map status (trace (tryBlock v env p job))
          = pre @ (if rejected (tryBlock v env p job) = None then [Done] else [])
        \<and> (\<forall>s\<in>set pre. s = Rendering)"
proof -
  let ?c = "captureLoop v env p (totalFrames v p) 0 job"
  let ?js = "fst (snd ?c)"
  let ?job1 = "(last (job # ?js))\<lparr>message := ''Encoding video'', progress := 85\<rparr>"
  have js: "\<forall>j\<in>set ?js. status j = Rendering" using captureLoop_fields[of _ v env p "totalFrames v p" 0 job] assms by auto
  then have l: "status (last (job # ?js)) = Rendering" using last_in[of job ?js] assms by auto
  then have evs: "\<forall>j\<in>set (progressEvents ?job1 (e_percents env)). status j = Rendering"
    using progressEvents_fields[of _ ?job1 "e_percents env"] by auto
  show ?thesis
    using js evs l
    by (auto simp: tryBlock_def failed_def Let_def split: option.splits
        intro!: exI[of _ "map status ?js @ Rendering # map status (progressEvents ?job1 (e_percents env))"])
qed

lemma tryBlock_encoded: "encoded (tryBlock v env p job) = (rejected (tryBlock v env p job) = None)"
  by (simp add: tryBlock_def failed_def Let_def split: option.splits)

lemma generateVideo_unfold:
  "generateVideo v env p (newJob jobId) =
     (case e_launch env of
        Some err \<Rightarrow> failed [launchedJob jobId] [] None err
      | None \<Rightarrow>
         (case e_close env of
            Some err \<Rightarrow>
              (tryBlock v env p (launchedJob jobId))
                \<lparr>trace := launchedJob jobId # trace (tryBlock v env p (launchedJob jobId)),
                 rejected := Some err\<rparr>
          | None \<Rightarrow>
              (tryBlock v env p (launchedJob jobId))
                \<lparr>trace := launchedJob jobId # trace (tryBlock v env p (launchedJob jobId)),
                 cleanup := True\<rparr>))"
  by (simp add: generateVideo_def launchedJob_def Let_def split: option.splits)

lemma jobHistory_statuses: "map status (jobHistory v env p jobId)
      = Queued # map status (trace (generateVideo v env p (newJob jobId)))
        @ (if rejected (generateVideo v env p (newJob jobId)) = None then [] else [Error])"
proof (cases "rejected (generateVideo v env p (newJob jobId))")
  case None
  then show ?thesis by (simp add: jobHistory_def Let_def) (simp add: newJob_def)
next
  case (Some err)
  then show ?thesis by (simp add: jobHistory_def Let_def) (simp add: newJob_def)
qed

lemma history_statuses:
  "\<exists>pre. (\<forall>s\<in>set pre. s = Rendering)
     \<and> map status (jobHistory v env p jobId)
        = Queued # Rendering # pre
          @ (if encoded (generateVideo v env p (newJob jobId)) then [Done] else [])
          @ (if rejected (generateVideo v env p (newJob jobId)) = None then [] else [Error])
     \<and> (e_close env = None \<longrightarrow>
          encoded (generateVideo v env p (newJob jobId))
            = (rejected (generateVideo v env p (newJob jobId)) = None))"
proof -
  let ?job0 = "launchedJob jobId"
  let ?t = "tryBlock v env p ?job0"
  let ?g = "generateVideo v env p (newJob jobId)"
  have r: "status ?job0 = Rendering" by (simp add: launchedJob_def)
  from tryBlock_statuses[OF r, of v env p] obtain pre where
    pre: "map status (trace ?t) = pre @ (if rejected ?t = None then [Done] else [])"
      "\<forall>s\<in>set pre. s = Rendering" by blast
  have enc: "encoded ?t = (rejected ?t = None)" by (rule tryBlock_encoded)
  show ?thesis
  proof (cases "e_launch env")
    case (Some err)
    have "trace ?g = [?job0]" "encoded ?g = False" "rejected ?g = Some err"
      by (simp_all add: generateVideo_unfold Some failed_def)
    then show ?thesis
      using r by (intro exI[of _ "[]"]) (simp add: jobHistory_statuses)
  next
    case None
    note launch = None
    show ?thesis
    proof (cases "e_close env")
      case None
      have "trace ?g = ?job0 # trace ?t" "encoded ?g = encoded ?t" "rejected ?g = rejected ?t"
        by (simp_all add: generateVideo_unfold launch None)
      then show ?thesis
        using pre enc None r by (intro exI[of _ pre]) (simp add: jobHistory_statuses)
    next
      case (Some err)
      have "trace ?g = ?job0 # trace ?t" "encoded ?g = encoded ?t" "rejected ?g = Some err"
        by (simp_all add: generateVideo_unfold launch Some)
      then show ?thesis
        using pre enc Some r by (intro exI[of _ pre]) (simp add: jobHistory_statuses)
    qed
  qed
qed

lemma follows_run: "\<forall>s\<in>set pre. s = a \<Longrightarrow> follows G (a # pre @ ys) = follows G (a # ys)"
  by (induction pre) auto

lemma absorbing_run: "\<forall>s\<in>set pre. s = b \<Longrightarrow> absorbing a (b # pre @ ys) = absorbing a (b # ys)"
  by (induction pre) auto

lemma generateVideo_close:
  "e_close env = Some err \<Longrightarrow>
     encoded (generateVideo v env p (newJob jobId)) \<Longrightarrow>
     rejected (generateVideo v env p (newJob jobId)) = Some err"
  by (cases "e_launch env") (simp_all add: generateVideo_unfold failed_def)

text \<open>
  Claim C2 does not hold of the server: a job can leave the terminal state \<open>done\<close>. The
  status is assigned in three places: \<open>'rendering'\<close> on entry to \<open>generateVideo\<close>,
  \<open>'done'\<close> as the last step of its \<open>try\<close> block, and \<open>'error'\<close> in the \<open>.catch\<close>
  callback of \<open>POST /api/generate\<close>. \<open>await browser.close()\<close> stands in the
  \<open>finally\<close> block: when the encoder has ended successfully and closing the browser
  then rejects, the promise of \<open>generateVideo\<close> rejects after the job was marked
  \<open>done\<close>, and the callback overwrites the status. These are exactly the runs in which
  \<open>done\<close> is left. In the run shown, of either server, the job ends in \<open>error\<close> with
  progress 100 and its output file set.
\<close>

theorem done_then_error:
  "(\<not> absorbing Done (map status (jobHistory v env p jobId)))
     = (encoded (generateVideo v env p (newJob jobId)) \<and> e_close env \<noteq> None)
   \<and> encoded (generateVideo Plain env_close_fails demo_params (newJob ''job1''))
   \<and> e_close env_close_fails \<noteq> None
   \<and> map status (jobHistory Plain env_close_fails demo_params ''job1'')
     = [Queued, Rendering, Rendering, Rendering, Rendering, Rendering, Rendering, Rendering,
        Rendering, Rendering, Rendering, Done, Error]
   \<and> map status (jobHistory Decimated env_close_fails demo_params ''job1'')
     = [Queued, Rendering, Rendering, Rendering, Rendering, Rendering, Rendering, Rendering,
        Done, Error]
   \<and> progress (last (jobHistory Plain env_close_fails demo_params ''job1'')) = 100
   \<and> outputFile (last (jobHistory Plain env_close_fails demo_params ''job1''))
        = Some ''/app/data/videos/job1.mp4''
   \<and> message (last (jobHistory Plain env_close_fails demo_params ''job1''))
        = ''Error: Protocol error (Browser.close): Target closed''"
proof -
  let ?g = "generateVideo v env p (newJob jobId)"
  let ?tail = "(if encoded ?g then [Done] else []) @ (if rejected ?g = None then [] else [Error])"
  from history_statuses[of v env p jobId] obtain pre where
    pre: "\<forall>s\<in>set pre. s = Rendering"
    and h: "map status (jobHistory v env p jobId) = Queued # Rendering # pre @ ?tail"
    and c: "e_close env = None \<longrightarrow> encoded ?g = (rejected ?g = None)"
    by auto
  have a: "absorbing Done (map status (jobHistory v env p jobId))
      = absorbing Done (Rendering # ?tail)"
    unfolding h using absorbing_run[OF pre, of Done ?tail] by simp
  have 1: "(\<not> absorbing Done (map status (jobHistory v env p jobId)))
     = (encoded ?g \<and> e_close env \<noteq> None)"
  proof (cases "e_close env")
    case None
    then show ?thesis using c by (simp add: a)
  next
    case (Some err)
    show ?thesis
    proof (cases "encoded ?g")
      case True
      then have "rejected ?g = Some err" using Some by (intro generateVideo_close)
      then show ?thesis using True Some by (simp add: a)
    next
      case False
      then show ?thesis by (simp add: a)
    qed
  qed
  have 2: "encoded (generateVideo Plain env_close_fails demo_params (newJob ''job1''))"
    by code_simp
  have 3: "e_close env_close_fails \<noteq> None" by code_simp
  have 4: "map status (jobHistory Plain env_close_fails demo_params ''job1'')
     = [Queued, Rendering, Rendering, Rendering, Rendering, Rendering, Rendering, Rendering,
        Rendering, Rendering, Rendering, Done, Error]" by code_simp
  have 5: "map status (jobHistory Decimated env_close_fails demo_params ''job1'')
     = [Queued, Rendering, Rendering, Rendering, Rendering, Rendering, Rendering, Rendering,
        Done, Error]" by code_simp
  have 6: "progress (last (jobHistory Plain env_close_fails demo_params ''job1'')) = 100"
    by code_simp
  have 7: "outputFile (last (jobHistory Plain env_close_fails demo_params ''job1''))
        = Some ''/app/data/videos/job1.mp4''" by code_simp
  have 8: "message (last (jobHistory Plain env_close_fails demo_params ''job1''))
        = ''Error: Protocol error (Browser.close): Target closed''" by code_simp
  show ?thesis using 1 2 3 4 5 6 7 8 by (intro conjI)
qed

text \<open>
  In every other run the invariant holds: whatever the outside world does, the status
  \<open>encoding\<close> is never assigned and \<open>error\<close> is never left; and when closing the browser
  succeeds, the status changes only along \<open>queued \<rightarrow> rendering \<rightarrow> {done | error}\<close>, so
  that \<open>done\<close> is not left either.
\<close>

lemma statuses_one_directional:
  "Encoding \<notin> set (map status (jobHistory v env p jobId))
   \<and> absorbing Error (map status (jobHistory v env p jobId))
   \<and> (e_close env = None \<longrightarrow>
        follows server_graph (map status (jobHistory v env p jobId))
        \<and> absorbing Done (map status (jobHistory v env p jobId)))"
proof -
  let ?g = "generateVideo v env p (newJob jobId)"
  let ?tail = "(if encoded ?g then [Done] else []) @ (if rejected ?g = None then [] else [Error])"
  from history_statuses[of v env p jobId] obtain pre where
    pre: "\<forall>s\<in>set pre. s = Rendering"
    and h: "map status (jobHistory v env p jobId) = Queued # Rendering # pre @ ?tail"
    and c: "e_close env = None \<longrightarrow> encoded ?g = (rejected ?g = None)"
    by auto
  have 1: "Encoding \<notin> set (map status (jobHistory v env p jobId))"
    unfolding h using pre by auto
  have "absorbing Error (Queued # Rendering # ?tail)" by simp
  then have 2: "absorbing Error (map status (jobHistory v env p jobId))"
    unfolding h using absorbing_run[OF pre, of Error ?tail] by simp
  have 3: "e_close env = None \<longrightarrow>
        follows server_graph (map status (jobHistory v env p jobId))
        \<and> absorbing Done (map status (jobHistory v env p jobId))"
  proof
    assume "e_close env = None"
    with c have "follows server_graph (Queued # Rendering # ?tail)"
      and "absorbing Done (Queued # Rendering # ?tail)"
      by (simp_all add: server_graph_def)
    then show "follows server_graph (map status (jobHistory v env p jobId))
        \<and> absorbing Done (map status (jobHistory v env p jobId))"
      unfolding h using follows_run[OF pre, of server_graph ?tail] absorbing_run[OF pre, of Done ?tail]
      by simp
  qed
  show ?thesis using 1 2 3 by blast
qed

subsection \<open>Progress\<close>

lemma Math_round_mono: "x \<le> y \<Longrightarrow> Math_round x \<le> Math_round y"
  by (simp add: Math_round_def floor_mono)

lemma capture_ratio:
  assumes "int i < n"
  shows "0 \<le> (of_nat (i + 1) / of_int n * 80 :: rat)" "(of_nat (i + 1) / of_int n * 80 :: rat) \<le> 80"
proof -
  have n: "0 < (of_int n :: rat)" using assms by simp
  have "int (i + 1) \<le> n" using assms by simp
  then have "(of_int (int (i + 1)) :: rat) \<le> of_int n" by (simp only: of_int_le_iff)
  then have le: "(of_nat (i + 1) :: rat) \<le> of_int n" by simp
  show "0 \<le> (of_nat (i + 1) / of_int n * 80 :: rat)" using n by simp
  have "(of_nat (i + 1) / of_int n :: rat) \<le> 1" using n le by (simp add: divide_le_eq_1)
  then have "(of_nat (i + 1) / of_int n :: rat) * 80 \<le> 1 * 80"
    by (rule mult_right_mono) simp
  then show "(of_nat (i + 1) / of_int n * 80 :: rat) \<le> 80" by (simp only: mult_1)
qed

lemma capture_progress_bounds:
  assumes "int i < n"
  shows "0 \<le> Math_round (of_nat (i + 1) / of_int n * 80)"
    and "Math_round (of_nat (i + 1) / of_int n * 80) \<le> 80"
  using capture_ratio[OF assms] unfolding Math_round_def by linarith+

lemma capture_progress_step:
  assumes "int i < n"
  shows "Math_round (of_nat (i + 1) / of_int n * 80) \<le> Math_round (of_nat (i + 1 + 1) / of_int n * 80)"
proof -
  have n: "0 < (of_int n :: rat)" using assms by simp
  have "(of_nat (i + 1) / of_int n :: rat) \<le> of_nat (i + 1 + 1) / of_int n"
    using n by (simp add: divide_right_mono)
  then have "(of_nat (i + 1) / of_int n :: rat) * 80 \<le> of_nat (i + 1 + 1) / of_int n * 80"
    by (rule mult_right_mono) simp
  then show ?thesis by (rule Math_round_mono)
qed

lemma captureLoop_progress:
  "sorted (map progress (fst (snd (captureLoop v env p n i job))))
   \<and> (\<forall>j\<in>set (fst (snd (captureLoop v env p n i job))).
         Math_round (of_nat (i + 1) / of_int n * 80) \<le> progress j \<and> 0 \<le> progress j
         \<and> progress j \<le> 80)"
proof (induction v env p n i job rule: captureLoop.induct)
  case (1 v env p n i job)
  show ?case
  proof (cases "int i < n \<and> e_setTimelineTime env i = None \<and> e_screenshot env i = None")
    case False
    then show ?thesis by (subst (1 2) captureLoop.simps) (auto split: option.splits)
  next
    case True
    let ?job' = "job\<lparr>progress := Math_round (of_nat (i + 1) / of_int n * 80),
        message := ''Captured frame '' @ String_nat (i + 1) @ ''/'' @ String_int n\<rparr>"
    let ?rest = "fst (snd (captureLoop v env p n (i + 1) ?job'))"
    have js: "fst (snd (captureLoop v env p n i job)) = ?job' # ?rest"
      using True by (subst captureLoop.simps) (simp add: Let_def)
    have ih: "sorted (map progress ?rest)"
      "\<forall>j\<in>set ?rest. Math_round (of_nat (i + 1 + 1) / of_int n * 80) \<le> progress j
          \<and> 0 \<le> progress j \<and> progress j \<le> 80"
      using "1.IH"[of ?job'] True by auto
    have i: "int i < n" using True by simp
    show ?thesis
      unfolding js using ih capture_progress_step[OF i] capture_progress_bounds[OF i]
      by (auto simp: order_trans)
  qed
qed

lemma encoderProgress_range: "0 \<le> x \<Longrightarrow> 85 \<le> encoderProgress x \<and> encoderProgress x \<le> 95"
  unfolding encoderProgress_def Math_round_def by (simp add: min_def) linarith?

lemma encoderProgress_mono: "x \<le> y \<Longrightarrow> encoderProgress x \<le> encoderProgress y"
  unfolding encoderProgress_def using Math_round_mono[of "x / 10" "y / 10"] by (simp add: min_def)

lemma encoderProgress_le: "encoderProgress x \<le> 95"
  by (simp add: encoderProgress_def)

lemma onProgress_progress:
  "progress (onProgress job pc) = (case truthy [pc] of [] \<Rightarrow> progress job | x # _ \<Rightarrow> encoderProgress x)"
  by (cases pc) (simp_all add: onProgress_def encoderProgress_def)

lemma progressEvents_progress:
  assumes "sorted (truthy ps)" "\<forall>x\<in>set (truthy ps). progress job \<le> encoderProgress x"
  shows "sorted (progress job # map progress (progressEvents job ps))"
  using assms
proof (induction ps arbitrary: job)
  case Nil then show ?case by simp
next
  case (Cons pc ps)
  show ?case
  proof (cases "truthy [pc]")
    case Nil
    then have t: "truthy (pc # ps) = truthy ps" by (cases pc) (auto split: if_splits)
    have p: "progress (onProgress job pc) = progress job" using Nil by (simp add: onProgress_progress)
    from Cons.IH[of "onProgress job pc"] Cons.prems t p show ?thesis by simp
  next
    case (Cons x xs)
    then have t: "truthy (pc # ps) = x # truthy ps" by (cases pc) (auto split: if_splits)
    have p: "progress (onProgress job pc) = encoderProgress x" using Cons by (simp add: onProgress_progress)
    have "\<forall>y\<in>set (truthy ps). encoderProgress x \<le> encoderProgress y"
      using Cons.prems(1) t by (auto intro: encoderProgress_mono)
    moreover have "sorted (truthy ps)" using Cons.prems(1) t by simp
    ultimately have "sorted (progress (onProgress job pc) # map progress (progressEvents (onProgress job pc) ps))"
      using Cons.IH[of "onProgress job pc"] p by simp
    moreover have "progress job \<le> encoderProgress x" using Cons.prems(2) t by simp
    ultimately show ?thesis using p by (auto simp: order_trans)
  qed
qed

lemma progressEvents_values:
  "j \<in> set (progressEvents job ps) \<Longrightarrow>
     progress j = progress job \<or> (\<exists>x\<in>set (truthy ps). progress j = encoderProgress x)"
proof (induction ps arbitrary: job)
  case Nil then show ?case by simp
next
  case (Cons pc ps)
  show ?case
  proof (cases pc)
    case None
    then show ?thesis using Cons.prems Cons.IH[of "onProgress job pc"]
      by (auto simp: onProgress_def)
  next
    case (Some x)
    then show ?thesis using Cons.prems Cons.IH[of "onProgress job pc"]
      by (auto simp: onProgress_def encoderProgress_def)
  qed
qed

lemma tryBlock_trace:
  "(\<not> encoded (tryBlock v env p job)
      \<and> (trace (tryBlock v env p job) = []
         \<or> trace (tryBlock v env p job) = capturedJobs v env p job
         \<or> trace (tryBlock v env p job)
             = capturedJobs v env p job @ encodingJob v env p job # encoderJobs v env p job))
   \<or> (encoded (tryBlock v env p job) \<and> e_encode env = None
      \<and> trace (tryBlock v env p job)
          = capturedJobs v env p job @ encodingJob v env p job # encoderJobs v env p job
            @ [completedJob v env p job])"
  by (simp add: tryBlock_def failed_def Let_def capturedJobs_def encodingJob_def encoderJobs_def
      completedJob_def split: option.splits)

lemma capturedJobs_progress:
  "sorted (map progress (capturedJobs v env p job))"
  "j \<in> set (capturedJobs v env p job) \<Longrightarrow> 0 \<le> progress j \<and> progress j \<le> 80"
  using captureLoop_progress[of v env p "totalFrames v p" 0 job]
  by (auto simp: capturedJobs_def)

lemma encodingJob_progress [simp]: "progress (encodingJob v env p job) = 85"
  by (simp add: encodingJob_def)

lemma encoderJobs_le:
  "j \<in> set (encoderJobs v env p job) \<Longrightarrow> progress j \<le> 95"
  using progressEvents_values[of j "encodingJob v env p job" "e_percents env"] encoderProgress_le
  by (auto simp: encoderJobs_def)

lemma encoderJobs_range:
  assumes "\<forall>x\<in>set (truthy (e_percents env)). 0 \<le> x" "j \<in> set (encoderJobs v env p job)"
  shows "85 \<le> progress j \<and> progress j \<le> 95"
  using progressEvents_values[of j "encodingJob v env p job" "e_percents env"] assms
    encoderProgress_range
  by (auto simp: encoderJobs_def)

lemma encoderJobs_sorted:
  assumes "\<forall>x\<in>set (truthy (e_percents env)). 0 \<le> x" "sorted (truthy (e_percents env))"
  shows "sorted (85 # map progress (encoderJobs v env p job))"
  using progressEvents_progress[of "e_percents env" "encodingJob v env p job"] assms
    encoderProgress_range
  by (simp add: encoderJobs_def)

lemma generateVideo_trace:
  "\<exists>T. trace (generateVideo v env p (newJob jobId)) = launchedJob jobId # T
     \<and> ((\<not> encoded (generateVideo v env p (newJob jobId))
           \<and> prefix T (fullTrace v env p (launchedJob jobId)))
        \<or> (encoded (generateVideo v env p (newJob jobId)) \<and> e_encode env = None
           \<and> T = fullTrace v env p (launchedJob jobId) @ [completedJob v env p (launchedJob jobId)]))"
proof -
  let ?job0 = "launchedJob jobId"
  let ?t = "tryBlock v env p ?job0"
  let ?g = "generateVideo v env p (newJob jobId)"
  show ?thesis
  proof (cases "e_launch env")
    case (Some err)
    have "trace ?g = [?job0]" "encoded ?g = False"
      by (simp_all add: generateVideo_unfold Some failed_def launchedJob_def)
    then show ?thesis by simp
  next
    case None
    have "trace ?g = ?job0 # trace ?t \<and> encoded ?g = encoded ?t"
      by (cases "e_close env") (simp_all add: generateVideo_unfold None launchedJob_def)
    then show ?thesis
      using tryBlock_trace[of v env p ?job0]
      by (auto simp: fullTrace_def)
  qed
qed

lemma jobHistory_shape:
  "jobHistory v env p jobId = newJob jobId # trace (generateVideo v env p (newJob jobId))
   \<or> (\<exists>err. jobHistory v env p jobId
        = (newJob jobId # trace (generateVideo v env p (newJob jobId)))
          @ [(last (newJob jobId # trace (generateVideo v env p (newJob jobId))))
               \<lparr>status := Error, message := err\<rparr>])"
proof (cases "rejected (generateVideo v env p (newJob jobId))")
  case None
  then show ?thesis by (simp add: jobHistory_def Let_def)
next
  case (Some e)
  then show ?thesis by (intro disjI2 exI[of _ e]) (simp add: jobHistory_def Let_def)
qed

lemma fullTrace_le: "j \<in> set (fullTrace v env p job) \<Longrightarrow> progress j \<le> 95"
  using capturedJobs_progress(2)[of j v env p job] encoderJobs_le[of j v env p job]
  by (auto simp: fullTrace_def)

lemma fullTrace_ge:
  "\<forall>x\<in>set (truthy (e_percents env)). 0 \<le> x \<Longrightarrow> j \<in> set (fullTrace v env p job) \<Longrightarrow> 0 \<le> progress j"
  using capturedJobs_progress(2)[of j v env p job] encoderJobs_range[of env j v p job]
  by (auto simp: fullTrace_def)

lemma fullTrace_sorted:
  assumes "\<forall>x\<in>set (truthy (e_percents env)). 0 \<le> x" "sorted (truthy (e_percents env))"
  shows "sorted (map progress (fullTrace v env p job))"
proof -
  have "\<forall>a\<in>set (capturedJobs v env p job). progress a \<le> 85"
    using capturedJobs_progress(2)[of _ v env p job] by fastforce
  moreover have "\<forall>a\<in>set (capturedJobs v env p job). \<forall>b\<in>set (encoderJobs v env p job). progress a \<le> progress b"
    using capturedJobs_progress(2)[of _ v env p job] encoderJobs_range[OF assms(1), of _ v p job] by fastforce
  ultimately show ?thesis
    using capturedJobs_progress(1)[of v env p job] encoderJobs_sorted[OF assms, of v p job]
    by (simp add: fullTrace_def sorted_append)
qed

lemma completedJob_progress [simp]: "progress (completedJob v env p job) = 100"
  by (simp add: completedJob_def)

lemma sorted_prefix: "prefix xs ys \<Longrightarrow> sorted (map f ys) \<Longrightarrow> sorted (map (f :: 'a \<Rightarrow> int) xs)"
  by (auto simp: prefix_def sorted_append)

lemma sorted_snoc_last:
  assumes "sorted (map (f :: 'a \<Rightarrow> int) xs)" "xs \<noteq> []" "f y = f (last xs)"
  shows "sorted (map f (xs @ [y]))"
proof -
  have "\<forall>x\<in>set xs. f x \<le> f (last xs)"
  proof
    fix x assume "x \<in> set xs"
    then obtain i where i: "i < length xs" "xs ! i = x" by (auto simp: in_set_conv_nth)
    have "map f xs ! i \<le> map f xs ! (length xs - 1)"
      using assms(1) i(1) by (intro sorted_nth_mono) auto
    then show "f x \<le> f (last xs)" using i assms(2) by (simp add: last_conv_nth)
  qed
  then show ?thesis using assms by (simp add: sorted_append)
qed

text \<open>
  Claim C3, as stated, fails. The handler of the encoder's progress events writes
  \<open>85 + min(10, round(percent / 10))\<close> whatever the progress was before: when the encoder
  reports 50 and then 20 percent, the progress of a job that is still \<open>rendering\<close> goes
  from 90 back to 87. And only the upper end of the range is clamped: a negative
  \<open>percent\<close> of -100 gives 75, outside 85 to 95.
\<close>

theorem progress_counterexample:
  "map progress (filter (\<lambda>j. status j \<noteq> Error) (jobHistory Plain env_regress demo_params ''job1''))
     = [0, 0, 13, 27, 40, 53, 67, 80, 85, 90, 87, 100]
   \<and> \<not> sorted (map progress
         (filter (\<lambda>j. status j \<noteq> Error) (jobHistory Plain env_regress demo_params ''job1'')))
   \<and> progress (onProgress (newJob ''job1'') (Some (- 100))) = 75"
  by code_simp

text \<open>
  Claim C3, amended. For every job the progress never exceeds 100. When every
  \<open>percent\<close> the encoder reports is non-negative, the progress never falls below 0; when
  these percentages are, in addition, non-decreasing, the progress is non-decreasing over the
  whole life of the job. A progress event with a positive \<open>percent\<close> sets the progress to
  a value between 85 and 95. The progress is 100 only in a job whose encoder has ended
  successfully.
\<close>

theorem progress_bounds:
  "(\<forall>j\<in>set (jobHistory v env p jobId). progress j \<le> 100)
   \<and> ((\<forall>x\<in>set (truthy (e_percents env)). 0 \<le> x) \<longrightarrow>
        (\<forall>j\<in>set (jobHistory v env p jobId). 0 \<le> progress j))
   \<and> ((\<forall>x\<in>set (truthy (e_percents env)). 0 \<le> x) \<and> sorted (truthy (e_percents env)) \<longrightarrow>
        sorted (map progress (jobHistory v env p jobId)))
   \<and> (0 < x \<longrightarrow> 85 \<le> progress (onProgress job (Some x)) \<and> progress (onProgress job (Some x)) \<le> 95)
   \<and> ((\<exists>j\<in>set (jobHistory v env p jobId). progress j = 100) \<longrightarrow>
        encoded (generateVideo v env p (newJob jobId)) \<and> e_encode env = None)"
proof -
  let ?g = "generateVideo v env p (newJob jobId)"
  let ?job0 = "launchedJob jobId"
  let ?F = "fullTrace v env p ?job0"
  let ?c = "completedJob v env p ?job0"
  let ?js = "newJob jobId # trace ?g"
  let ?H = "jobHistory v env p jobId"
  from generateVideo_trace[of v env p jobId] obtain T where
    T: "trace ?g = ?job0 # T"
    and sh: "(\<not> encoded ?g \<and> prefix T ?F) \<or> (encoded ?g \<and> e_encode env = None \<and> T = ?F @ [?c])"
    by blast
  have pT: "prefix T (?F @ [?c])" using sh by (auto intro: prefix_order.trans)
  have p0: "progress (newJob jobId) = 0" "progress ?job0 = 0" by (simp_all add: newJob_def launchedJob_def)
  have setH: "progress ` set ?H = progress ` set ?js"
  proof -
    have "progress (last ?js) \<in> progress ` set ?js" by (intro imageI last_in_set) simp
    then show ?thesis using jobHistory_shape[of v env p jobId] by auto
  qed
  have setjs: "set ?js \<subseteq> {newJob jobId, ?job0} \<union> set ?F \<union> {?c}"
    using T pT set_mono_prefix[OF pT] by auto
  have 1: "\<forall>j\<in>set ?H. progress j \<le> 100"
  proof -
    have "\<forall>j\<in>set ?js. progress j \<le> 100"
      using setjs p0 fullTrace_le[of _ v env p ?job0] by fastforce
    then show ?thesis using setH by (metis (no_types, lifting) image_iff)
  qed
  have 2: "(\<forall>x\<in>set (truthy (e_percents env)). 0 \<le> x) \<longrightarrow> (\<forall>j\<in>set ?H. 0 \<le> progress j)"
  proof
    assume h: "\<forall>x\<in>set (truthy (e_percents env)). 0 \<le> x"
    have "\<forall>j\<in>set ?js. 0 \<le> progress j"
      using setjs p0 fullTrace_ge[OF h, of _ v p ?job0] by fastforce
    then show "\<forall>j\<in>set ?H. 0 \<le> progress j" using setH by (metis (no_types, lifting) image_iff)
  qed
  have 3: "(\<forall>x\<in>set (truthy (e_percents env)). 0 \<le> x) \<and> sorted (truthy (e_percents env)) \<longrightarrow>
        sorted (map progress ?H)"
  proof
    assume h: "(\<forall>x\<in>set (truthy (e_percents env)). 0 \<le> x) \<and> sorted (truthy (e_percents env))"
    then have sF: "sorted (map progress ?F)" by (intro fullTrace_sorted) auto
    have "sorted (map progress (?F @ [?c]))"
      using sF fullTrace_le[of _ v env p ?job0] by (fastforce simp: sorted_append)
    then have "sorted (map progress T)" using pT by (rule sorted_prefix[rotated])
    moreover have "\<forall>j\<in>set T. 0 \<le> progress j"
      using set_mono_prefix[OF pT] fullTrace_ge[of env _ v p ?job0] h by fastforce
    ultimately have sjs: "sorted (map progress ?js)" using T p0 by simp
    show "sorted (map progress ?H)"
      using jobHistory_shape[of v env p jobId] sjs sorted_snoc_last[OF sjs]
      by auto
  qed
  have 4: "0 < x \<longrightarrow> 85 \<le> progress (onProgress job (Some x)) \<and> progress (onProgress job (Some x)) \<le> 95"
    using encoderProgress_range[of x] by (simp add: onProgress_def encoderProgress_def)
  have 5: "(\<exists>j\<in>set ?H. progress j = 100) \<longrightarrow> encoded ?g \<and> e_encode env = None"
  proof
    assume "\<exists>j\<in>set ?H. progress j = 100"
    then obtain j where j: "j \<in> set ?js" "progress j = 100" using setH by (metis (no_types, lifting) image_iff)
    show "encoded ?g \<and> e_encode env = None"
    proof (rule ccontr)
      assume "\<not> (encoded ?g \<and> e_encode env = None)"
      then have "prefix T ?F" using sh by auto
      then have "set ?js \<subseteq> {newJob jobId, ?job0} \<union> set ?F" using T set_mono_prefix by fastforce
      then have "progress j \<le> 95" using j(1) p0 fullTrace_le[of j v env p ?job0] by auto
      then show False using j(2) by simp
    qed
  qed
  show ?thesis using 1 2 3 4 5 by blast
qed

theorem progress_bounds_witness:
  "truthy (e_percents env_ok) = [50, 100]
   \<and> (\<exists>j\<in>set (jobHistory Plain env_ok demo_params ''job1''). progress j = 100)
   \<and> sorted (map progress (jobHistory Plain env_ok demo_params ''job1''))
   \<and> map progress (jobHistory Plain env_ok demo_params ''job1'')
       = [0, 0, 13, 27, 40, 53, 67, 80, 85, 90, 95, 100]
   \<and> 85 \<le> progress (onProgress (newJob ''job1'') (Some 50))
   \<and> progress (onProgress (newJob ''job1'') (Some 50)) \<le> 95
   \<and> encoded (generateVideo Plain env_ok demo_params (newJob ''job1''))"
proof -
  have t: "truthy (e_percents env_ok) = [50, 100]" by (simp add: env_ok_def)
  have h1: "\<forall>x\<in>set (truthy (e_percents env_ok)). 0 \<le> x" unfolding t by simp
  have h2: "sorted (truthy (e_percents env_ok))" unfolding t by simp
  have e: "map progress (jobHistory Plain env_ok demo_params ''job1'')
       = [0, 0, 13, 27, 40, 53, 67, 80, 85, 90, 95, 100]"
    by code_simp
  have h3: "\<exists>j\<in>set (jobHistory Plain env_ok demo_params ''job1''). progress j = 100"
  proof -
    have "100 \<in> set (map progress (jobHistory Plain env_ok demo_params ''job1''))"
      unfolding e by simp
    then show ?thesis by auto
  qed
  have h4: "(0::rat) < 50" by simp
  note b = progress_bounds[of Plain env_ok demo_params "''job1''" 50 "newJob ''job1''"]
  note b3 = b[THEN conjunct2, THEN conjunct2, THEN conjunct1, THEN mp, OF conjI, OF h1 h2]
  note b4 = b[THEN conjunct2, THEN conjunct2, THEN conjunct2, THEN conjunct1, THEN mp, OF h4]
  note b5 = b[THEN conjunct2, THEN conjunct2, THEN conjunct2, THEN conjunct2, THEN mp, OF h3]
  show ?thesis
    using t h3 b3 e b4[THEN conjunct1] b4[THEN conjunct2] b5[THEN conjunct1]
    by (intro conjI)
qed

subsection \<open>Background failure\<close>

lemma sampleTime_backgroundUrl [simp]: "sampleTime v (p\<lparr>backgroundUrl := u\<rparr>) i = sampleTime v p i"
  by (cases v) (simp_all add: sampleTime_def)

lemma totalFrames_backgroundUrl [simp]: "totalFrames v (p\<lparr>backgroundUrl := u\<rparr>) = totalFrames v p"
  by (cases v) (simp_all add: totalFrames_def)

lemma encoderCommand_backgroundUrl [simp]:
  "encoderCommand v (p\<lparr>backgroundUrl := u\<rparr>) bg = encoderCommand v p bg"
  by (cases v) (simp_all add: encoderCommand_def)

lemma captureLoop_backgroundUrl:
  "captureLoop v env (p\<lparr>backgroundUrl := u\<rparr>) n i job = captureLoop v env p n i job"
proof (induction v env p n i job rule: captureLoop.induct)
  case (1 v env p n i job)
  show ?case
    using "1.IH"
    by (subst (1 2) captureLoop.simps) (simp add: Let_def split: option.splits)
qed

lemma bgVideo_failed:
  "ensureBackgroundVideo env (backgroundUrl p) (width p) (height p) = Inl err \<Longrightarrow> bgVideo v env p = None"
  by (cases v) (simp_all add: bgVideo_def)

lemma bgVideo_none: "bgVideo v env (p\<lparr>backgroundUrl := []\<rparr>) = None"
  by (cases v) (simp_all add: bgVideo_def ensureBackgroundVideo_def)

lemma tryBlock_background:
  assumes "bgVideo v env p = None"
  shows "tryBlock v env p job = tryBlock v env (p\<lparr>backgroundUrl := []\<rparr>) job"
  using assms
  by (simp add: tryBlock_def captureLoop_backgroundUrl bgVideo_none Let_def
      cong del: option.case_cong_weak)

lemma generateVideo_background:
  assumes "bgVideo v env p = None"
  shows "generateVideo v env p job = generateVideo v env (p\<lparr>backgroundUrl := []\<rparr>) job"
  using tryBlock_background[OF assms]
  by (simp add: generateVideo_def Let_def cong del: option.case_cong_weak)

lemma tryBlock_command:
  "command (tryBlock v env p job) = None
   \<or> command (tryBlock v env p job) = Some (encoderCommand v p (bgVideo v env p))"
  by (simp add: tryBlock_def failed_def Let_def split: option.splits)

lemma generateVideo_command:
  "command (generateVideo v env p job) = None
   \<or> command (generateVideo v env p job) = Some (encoderCommand v p (bgVideo v env p))"
proof (cases "e_launch env")
  case (Some err)
  then show ?thesis by (simp add: generateVideo_def failed_def)
next
  case None
  then show ?thesis
    using tryBlock_command[of v env p "job\<lparr>status := Rendering, message := ''Launching headless browser''\<rparr>"]
    by (cases "e_close env") (auto simp: generateVideo_def Let_def)
qed

lemma tryBlock_success:
  assumes "e_newPage env = None" "e_goto env = None" "e_setVideoData env = None"
    "e_startRender env = None" "\<forall>k. e_setTimelineTime env k = None \<and> e_screenshot env k = None"
    "e_encode env = None"
  shows "rejected (tryBlock v env p job) = None"
    "trace (tryBlock v env p job) = fullTrace v env p job @ [completedJob v env p job]"
    "command (tryBlock v env p job) = Some (encoderCommand v p (bgVideo v env p))"
proof -
  have c: "snd (snd (captureLoop v env p (totalFrames v p) 0 job)) = None"
    using captureLoop_all[of env v p "totalFrames v p" 0 job] assms(5) by simp
  show "rejected (tryBlock v env p job) = None"
    "trace (tryBlock v env p job) = fullTrace v env p job @ [completedJob v env p job]"
    "command (tryBlock v env p job) = Some (encoderCommand v p (bgVideo v env p))"
    using assms(1-4,6) c
    by (simp_all add: tryBlock_def Let_def fullTrace_def completedJob_def capturedJobs_def
        encodingJob_def encoderJobs_def)
qed

lemma jobHistory_success:
  assumes "e_launch env = None" "e_newPage env = None" "e_goto env = None"
    "e_setVideoData env = None" "e_startRender env = None"
    "\<forall>k. e_setTimelineTime env k = None \<and> e_screenshot env k = None"
    "e_encode env = None" "e_close env = None"
  shows "jobHistory v env p jobId
           = newJob jobId # launchedJob jobId # fullTrace v env p (launchedJob jobId)
             @ [completedJob v env p (launchedJob jobId)]"
    and "command (generateVideo v env p (newJob jobId)) = Some (encoderCommand v p (bgVideo v env p))"
    and "rejected (generateVideo v env p (newJob jobId)) = None"
proof -
  let ?g = "generateVideo v env p (newJob jobId)"
  let ?t = "tryBlock v env p (launchedJob jobId)"
  let ?F = "fullTrace v env p (launchedJob jobId)"
  let ?c = "completedJob v env p (launchedJob jobId)"
  have t: "rejected ?t = None" "trace ?t = ?F @ [?c]"
      "command ?t = Some (encoderCommand v p (bgVideo v env p))"
    using assms(2-7) by (simp_all add: tryBlock_success)
  have g: "?g = ?t\<lparr>trace := launchedJob jobId # trace ?t, cleanup := True\<rparr>"
    by (simp add: generateVideo_unfold assms(1) assms(8))
  show "rejected ?g = None" unfolding g using t(1) by simp
  show "command ?g = Some (encoderCommand v p (bgVideo v env p))" unfolding g using t(3) by simp
  have "rejected ?g = None" "trace ?g = launchedJob jobId # ?F @ [?c]"
    unfolding g using t by simp_all
  then show "jobHistory v env p jobId = newJob jobId # launchedJob jobId # ?F @ [?c]"
    by (simp add: jobHistory_def Let_def)
qed

lemma jobHistory_no_error:
  assumes "rejected (generateVideo v env p (newJob jobId)) = None"
  shows "Error \<notin> set (map status (jobHistory v env p jobId))"
proof -
  from history_statuses[of v env p jobId] obtain pre where
    pre: "\<forall>s\<in>set pre. s = Rendering"
    and h: "map status (jobHistory v env p jobId) = Queued # Rendering # pre
          @ (if encoded (generateVideo v env p (newJob jobId)) then [Done] else [])
          @ (if rejected (generateVideo v env p (newJob jobId)) = None then [] else [Error])"
    by auto
  show ?thesis unfolding h using pre assms by auto
qed

text \<open>
  Claim C4. In the server with background support, when the resolution of the background
  fails (the download or the scaling rejects), the job runs exactly as the same job with no
  background requested: same history of the job record, same frames, and an encoder
  command without overlay. In particular, when every other stage succeeds, the job ends
  \<open>done\<close> with its output file and never passes through \<open>error\<close>.
\<close>

theorem background_failure_not_fatal:
  assumes "ensureBackgroundVideo env (backgroundUrl p) (width p) (height p) = Inl err"
  shows "generateVideo Decimated env p (newJob jobId)
           = generateVideo Decimated env (p\<lparr>backgroundUrl := []\<rparr>) (newJob jobId)
       \<and> jobHistory Decimated env p jobId = jobHistory Decimated env (p\<lparr>backgroundUrl := []\<rparr>) jobId
       \<and> (case command (generateVideo Decimated env p (newJob jobId)) of
             None \<Rightarrow> True | Some cmd \<Rightarrow> overlay cmd = None)
       \<and> (e_launch env = None \<and> e_newPage env = None \<and> e_goto env = None
            \<and> e_setVideoData env = None \<and> e_startRender env = None
            \<and> (\<forall>k. e_setTimelineTime env k = None \<and> e_screenshot env k = None)
            \<and> e_encode env = None \<and> e_close env = None
          \<longrightarrow> status (last (jobHistory Decimated env p jobId)) = Done
              \<and> outputFile (last (jobHistory Decimated env p jobId)) = Some (outFile p)
              \<and> Error \<notin> set (map status (jobHistory Decimated env p jobId))
              \<and> command (generateVideo Decimated env p (newJob jobId))
                  = Some (encoderCommand Decimated p None))"
proof -
  let ?g = "generateVideo Decimated env p (newJob jobId)"
  let ?H = "jobHistory Decimated env p jobId"
  have bg: "bgVideo Decimated env p = None" using assms by (rule bgVideo_failed)
  have 1: "?g = generateVideo Decimated env (p\<lparr>backgroundUrl := []\<rparr>) (newJob jobId)"
    by (rule generateVideo_background[OF bg])
  have 2: "?H = jobHistory Decimated env (p\<lparr>backgroundUrl := []\<rparr>) jobId"
    unfolding jobHistory_def 1 by (rule refl)
  have 3: "(case command ?g of None \<Rightarrow> True | Some cmd \<Rightarrow> overlay cmd = None)"
    using generateVideo_command[of Decimated env p "newJob jobId"] bg
    by (auto simp: encoderCommand_def)
  have 4: "e_launch env = None \<and> e_newPage env = None \<and> e_goto env = None
            \<and> e_setVideoData env = None \<and> e_startRender env = None
            \<and> (\<forall>k. e_setTimelineTime env k = None \<and> e_screenshot env k = None)
            \<and> e_encode env = None \<and> e_close env = None
          \<longrightarrow> status (last ?H) = Done
              \<and> outputFile (last ?H) = Some (outFile p)
              \<and> Error \<notin> set (map status ?H)
              \<and> command ?g = Some (encoderCommand Decimated p None)"
  proof (intro impI, elim conjE)
    assume ok: "e_launch env = None" "e_newPage env = None" "e_goto env = None"
      "e_setVideoData env = None" "e_startRender env = None"
      "\<forall>k. e_setTimelineTime env k = None \<and> e_screenshot env k = None"
      "e_encode env = None" "e_close env = None"
    let ?c = "completedJob Decimated env p (launchedJob jobId)"
    note s = jobHistory_success[OF ok, of Decimated p jobId]
    have l: "last ?H = ?c" unfolding s(1) by simp
    have c: "status ?c = Done" "outputFile ?c = Some (outFile p)" by (simp_all add: completedJob_def)
    have e: "Error \<notin> set (map status ?H)" using s(3) by (rule jobHistory_no_error)
    have cmd: "command ?g = Some (encoderCommand Decimated p None)" using s(2) bg by simp
    show "status (last ?H) = Done \<and> outputFile (last ?H) = Some (outFile p)
        \<and> Error \<notin> set (map status ?H) \<and> command ?g = Some (encoderCommand Decimated p None)"
      using c e cmd unfolding l by (intro conjI)
  qed
  show ?thesis
    apply (intro conjI)
       apply (rule 1)
      apply (rule 2)
     apply (rule 3)
    apply (rule 4)
    done
qed

theorem background_failure_not_fatal_witness:
  "ensureBackgroundVideo env_bg_down (backgroundUrl bg_params) (width bg_params) (height bg_params)
     = Inl ''ERROR: Unable to download webpage''
   \<and> status (last (jobHistory Decimated env_bg_down bg_params ''job1'')) = Done
   \<and> outputFile (last (jobHistory Decimated env_bg_down bg_params ''job1'')) = Some ''/app/data/videos/job1.mp4''
   \<and> Error \<notin> set (map status (jobHistory Decimated env_bg_down bg_params ''job1''))"
proof -
  have h: "ensureBackgroundVideo env_bg_down (backgroundUrl bg_params) (width bg_params) (height bg_params)
     = Inl ''ERROR: Unable to download webpage''"
    by (simp add: ensureBackgroundVideo_def env_bg_down_def bg_params_def demo_params_def env_ok_def)
  have ok: "e_launch env_bg_down = None \<and> e_newPage env_bg_down = None \<and> e_goto env_bg_down = None
            \<and> e_setVideoData env_bg_down = None \<and> e_startRender env_bg_down = None
            \<and> (\<forall>k. e_setTimelineTime env_bg_down k = None \<and> e_screenshot env_bg_down k = None)
            \<and> e_encode env_bg_down = None \<and> e_close env_bg_down = None"
    by (simp add: env_bg_down_def env_ok_def)
  have o: "outFile bg_params = ''/app/data/videos/job1.mp4''"
    by (simp add: bg_params_def demo_params_def)
  note r = background_failure_not_fatal[OF h, of "''job1''",
      THEN conjunct2, THEN conjunct2, THEN conjunct2, THEN mp, OF ok]
  show ?thesis
    using h r[THEN conjunct1] r[THEN conjunct2, THEN conjunct1]
      r[THEN conjunct2, THEN conjunct2, THEN conjunct1]
    unfolding o by (intro conjI)
qed

subsection \<open>Text layout\<close>

lemma wrapLoop_greedy:
  "wrapResult (wrapLoop ctx maxWidth words lines cur) = lines @ greedyLines ctx maxWidth cur words"
proof (induction words arbitrary: lines cur)
  case Nil
  then show ?case by (simp add: wrapResult_def)
next
  case (Cons w words)
  show ?case
  proof (cases "cur = []")
    case True
    then show ?thesis by (simp add: Cons.IH testLine_def)
  next
    case False
    then show ?thesis by (simp add: Cons.IH testLine_def not_less)
  qed
qed

lemma wrapText_refines: "wrapText ctx text maxWidth = greedyLines ctx maxWidth [] (split_space text)"
  by (simp add: wrapText_def wrapLoop_greedy)

lemma greedyLines_lines:
  assumes "cur = [] \<or> ctx cur \<le> limit \<or> cur \<in> W" "set ws \<subseteq> W"
    and "line \<in> set (greedyLines ctx limit cur ws)"
  shows "line \<noteq> [] \<and> (ctx line \<le> limit \<or> line \<in> W)"
  using assms
proof (induction ws arbitrary: cur)
  case Nil
  then show ?case by (auto split: if_splits)
next
  case (Cons w ws)
  show ?case
  proof (cases "cur = []")
    case True
    then have "line \<in> set (greedyLines ctx limit w ws)" using Cons.prems(3) by simp
    then show ?thesis using Cons.IH[of w] Cons.prems(2) by auto
  next
    case False
    show ?thesis
    proof (cases "ctx (cur @ '' '' @ w) \<le> limit")
      case True
      then have "line \<in> set (greedyLines ctx limit (cur @ '' '' @ w) ws)"
        using Cons.prems(3) False by simp
      then show ?thesis using Cons.IH[of "cur @ '' '' @ w"] Cons.prems(2) True by auto
    next
      case nofit: False
      then have "line = cur \<or> line \<in> set (greedyLines ctx limit w ws)"
        using Cons.prems(3) False by simp
      then show ?thesis using Cons.IH[of w] Cons.prems(1,2) False by auto
    qed
  qed
qed

lemma split_space_nonempty [simp]: "split_space s \<noteq> []"
  by (induction s) (auto split: list.splits)

lemma split_space_append: "split_space (a @ CHR '' '' # b) = split_space a @ split_space b"
  by (induction a) (auto split: list.splits)

lemma split_space_word: "CHR '' '' \<notin> set w \<Longrightarrow> split_space w = [w]"
  by (induction w) (auto split: list.splits)

lemma split_space_no_space: "w \<in> set (split_space s) \<Longrightarrow> CHR '' '' \<notin> set w"
  by (induction s arbitrary: w) (auto split: list.splits if_splits)

lemma greedyLines_words:
  assumes "[] \<notin> set ws" "\<forall>w\<in>set ws. CHR '' '' \<notin> set w"
  shows "concat (map split_space (greedyLines ctx limit cur ws))
           = (if cur = [] then [] else split_space cur) @ ws"
  using assms
proof (induction ws arbitrary: cur)
  case Nil
  then show ?case by simp
next
  case (Cons w ws)
  then have w: "w \<noteq> []" "split_space w = [w]" by (auto simp: split_space_word)
  show ?case
    using Cons.IH[of w] Cons.IH[of "cur @ '' '' @ w"] Cons.prems w
    by (auto simp: split_space_append)
qed

text \<open>
  Claim C8. For every text and every maximal width, \<open>wrapText\<close> is greedy word wrap:
  its result is that of \<open>greedyLines\<close>, which accumulates the words on the current line
  while the measured width stays within the limit and, on overflow, finishes the line and
  starts a new one with the overflowing word. Hence every line is non-empty and either fits
  the width or is a single word of the text; and for a text whose words are all non-empty,
  the lines hold exactly the words of the text, in order.
\<close>

theorem wrapText_greedy:
  "wrapText ctx text maxWidth = greedyLines ctx maxWidth [] (split_space text)
   \<and> (\<forall>line\<in>set (wrapText ctx text maxWidth).
         line \<noteq> [] \<and> (ctx line \<le> maxWidth \<or> line \<in> set (split_space text)))
   \<and> ([] \<notin> set (split_space text) \<longrightarrow>
         concat (map split_space (wrapText ctx text maxWidth)) = split_space text)"
proof -
  have 1: "wrapText ctx text maxWidth = greedyLines ctx maxWidth [] (split_space text)"
    by (rule wrapText_refines)
  have 2: "\<forall>line\<in>set (wrapText ctx text maxWidth).
         line \<noteq> [] \<and> (ctx line \<le> maxWidth \<or> line \<in> set (split_space text))"
    unfolding 1 using greedyLines_lines[of "[]" ctx maxWidth "set (split_space text)" "split_space text"]
    by blast
  have 3: "[] \<notin> set (split_space text) \<longrightarrow>
         concat (map split_space (wrapText ctx text maxWidth)) = split_space text"
    unfolding 1 using greedyLines_words[of "split_space text" ctx maxWidth "[]"] split_space_no_space[of _ "text"]
    by auto
  show ?thesis using 1 2 3 by (intro conjI)
qed

theorem wrapText_greedy_witness:
  "[] \<notin> set (split_space ''the quick brown fox jumps'')
   \<and> wrapText monoWidth ''the quick brown fox jumps'' 100 = [''the quick'', ''brown fox'', ''jumps'']
   \<and> wrapText monoWidth ''the quick brown fox jumps'' 100
       = greedyLines monoWidth 100 [] (split_space ''the quick brown fox jumps'')
   \<and> concat (map split_space (wrapText monoWidth ''the quick brown fox jumps'' 100))
       = split_space ''the quick brown fox jumps''"
proof -
  have h: "[] \<notin> set (split_space ''the quick brown fox jumps'')" by code_simp
  have e: "wrapText monoWidth ''the quick brown fox jumps'' 100 = [''the quick'', ''brown fox'', ''jumps'']"
    by code_simp
  note t = wrapText_greedy[of monoWidth "''the quick brown fox jumps''" 100]
  show ?thesis
    using h e t[THEN conjunct1] t[THEN conjunct2, THEN conjunct2, THEN mp, OF h]
    by (intro conjI)
qed

subsection \<open>Visible messages\<close>

lemma shown_stateOf [simp]: "shown (stateOf vd f i visible chapter) = map vm_dialogue visible"
  by (simp add: shown_def stateOf_def)

lemma vm_dialogue_animate [simp]: "map vm_dialogue (animate visible) = map vm_dialogue visible"
  by (simp add: animate_def comp_def)

lemma pushMessage_take:
  assumes "i \<le> length ds" "map vm_dialogue visible = take i ds"
  shows "map vm_dialogue (pushMessage ds f i visible) = take (nextIndex ds f i) ds"
    and "nextIndex ds f i \<le> length ds" and "i \<le> nextIndex ds f i"
  using assms
  by (auto simp: pushMessage_def nextIndex_def addsMessage_def take_Suc_conv_app_nth)

lemma prefix_take_le: "i \<le> j \<Longrightarrow> prefix (take i xs) (take j xs)"
  by (metis min.absorb1 prefixI append_take_drop_id take_take)

lemma frameLoop_prefix:
  assumes "i \<le> length (fd_dialogues vd)" "map vm_dialogue visible = take i (fd_dialogues vd)"
  shows "(\<forall>s\<in>set (fst (frameLoop env vd f i visible ch)).
            prefix (take i (fd_dialogues vd)) (shown s) \<and> prefix (shown s) (fd_dialogues vd))
       \<and> sorted_wrt (\<lambda>a b. prefix (shown a) (shown b)) (fst (frameLoop env vd f i visible ch))"
  using assms
proof (induction env vd f i visible ch rule: frameLoop.induct)
  case (1 env vd f i visible ch)
  let ?ds = "fd_dialogues vd"
  let ?i' = "nextIndex ?ds f i"
  let ?v' = "animate (pushMessage ?ds f i visible)"
  let ?c' = "nextChapter ?ds f i ch"
  let ?st = "stateOf vd f ?i' ?v' ?c'"
  note p = pushMessage_take[OF "1.prems"]
  have sh: "shown ?st = take ?i' ?ds" using p(1) by simp
  have st: "prefix (take i ?ds) (shown ?st) \<and> prefix (shown ?st) ?ds"
    unfolding sh using p(3) by (simp add: prefix_take_le take_is_prefix)
  show ?case
  proof (cases "f < totalFrames_ui ?ds")
    case False
    then show ?thesis by (subst (1 2) frameLoop.simps) simp
  next
    case True
    show ?thesis
    proof (cases "s_writeFile env f")
      case (Some err)
      then show ?thesis using True st by (subst (1 2) frameLoop.simps) (simp add: Let_def)
    next
      case None
      have v': "map vm_dialogue ?v' = take ?i' ?ds" using p(1) by simp
      note ih = "1.IH"[OF True refl refl refl refl None p(2)[of f] v']
      have fl: "fst (frameLoop env vd f i visible ch)
          = ?st # fst (frameLoop env vd (f + 1) ?i' ?v' ?c')"
        using True None by (subst frameLoop.simps) (simp add: Let_def)
      have "\<forall>s\<in>set (fst (frameLoop env vd (f + 1) ?i' ?v' ?c')).
          prefix (take i ?ds) (shown s) \<and> prefix (shown ?st) (shown s)"
        using ih sh prefix_take_le[OF p(3), of ?ds] by (auto intro: prefix_order.trans)
      then show ?thesis unfolding fl using ih st by auto
    qed
  qed
qed

text \<open>
  Claim C7. In every run of \<open>generateFrames\<close>, the dialogues that a frame shows are a
  prefix of the input list, in input order; and what an earlier frame shows is a prefix of
  what every later frame shows, so that a message, once visible, stays visible at the same
  place.
\<close>

theorem visible_messages_prefix:
  "(\<forall>s\<in>set (fst (generateFrames_ui env vd)). prefix (shown s) (fd_dialogues vd))
   \<and> (\<forall>j k. j \<le> k \<and> k < length (fst (generateFrames_ui env vd)) \<longrightarrow>
         prefix (shown (fst (generateFrames_ui env vd) ! j)) (shown (fst (generateFrames_ui env vd) ! k)))"
proof -
  let ?S = "fst (generateFrames_ui env vd)"
  have inv: "(\<forall>s\<in>set ?S. prefix (take 0 (fd_dialogues vd)) (shown s) \<and> prefix (shown s) (fd_dialogues vd))
       \<and> sorted_wrt (\<lambda>a b. prefix (shown a) (shown b)) ?S"
    unfolding generateFrames_ui_def by (rule frameLoop_prefix) simp_all
  have "\<forall>j k. j \<le> k \<and> k < length ?S \<longrightarrow> prefix (shown (?S ! j)) (shown (?S ! k))"
  proof (intro allI impI)
    fix j k assume jk: "j \<le> k \<and> k < length ?S"
    show "prefix (shown (?S ! j)) (shown (?S ! k))"
    proof (cases "j = k")
      case True then show ?thesis by simp
    next
      case False
      then have "j < k" using jk by simp
      then show ?thesis using inv jk by (simp add: sorted_wrt_iff_nth_less)
    qed
  qed
  then show ?thesis using inv by simp
qed

theorem visible_messages_prefix_witness:
  "(59::nat) \<le> 60 \<and> 60 < length (fst (generateFrames_ui svc_disk_full demo_data))
   \<and> shown (fst (generateFrames_ui svc_disk_full demo_data) ! 59) = []
   \<and> shown (fst (generateFrames_ui svc_disk_full demo_data) ! 60) = [hello]
   \<and> prefix (shown (fst (generateFrames_ui svc_disk_full demo_data) ! 59))
        (shown (fst (generateFrames_ui svc_disk_full demo_data) ! 60))
   \<and> prefix (shown (fst (generateFrames_ui svc_disk_full demo_data) ! 60)) (fd_dialogues demo_data)"
proof -
  let ?S = "fst (generateFrames_ui svc_disk_full demo_data)"
  have e: "map shown ?S = replicate 60 [] @ [[hello], [hello]]" by code_simp
  have len: "length ?S = 62" using arg_cong[OF e, of length] by simp
  have "map shown ?S ! 59 = []" "map shown ?S ! 60 = [hello]" unfolding e by (simp_all add: nth_append)
  then have n: "shown (?S ! 59) = []" "shown (?S ! 60) = [hello]" using len by simp_all
  have k: "(59::nat) \<le> 60 \<and> 60 < length ?S" using len by simp
  have m: "?S ! 60 \<in> set ?S" using len by (intro nth_mem) simp
  note t = visible_messages_prefix[of svc_disk_full demo_data]
  have p1: "prefix (shown (?S ! 59)) (shown (?S ! 60))"
    using t[THEN conjunct2, THEN spec, THEN spec, THEN mp, OF k] .
  have p2: "prefix (shown (?S ! 60)) (fd_dialogues demo_data)"
    using t[THEN conjunct1, THEN bspec, OF m] .
  show ?thesis using k n p1 p2 by (intro conjI) simp_all
qed

subsection \<open>The job registry\<close>

lemma postGenerate_accepts:
  "snd (postGenerate v dm s reqBody jobId None env) = JobId jobId"
  "jobs (fst (postGenerate v dm s reqBody jobId None env)) = (jobs s)(jobId \<mapsto> length (objects s))"
  "objects (fst (postGenerate v dm s reqBody jobId None env))
     = objects s @ [\<lparr>current = launchedJob jobId,
                     pending = drop 2 (jobHistory v env (requestParams v env dm reqBody jobId) jobId)\<rparr>]"
  by (simp_all add: postGenerate_def Let_def)

lemma postGenerate_fails:
  "postGenerate v dm s reqBody jobId (Some err) env = (s, Unanswered err)"
  by (simp add: postGenerate_def)

lemma advance_jobs [simp]: "jobs (advance s a) = jobs s"
  by (simp add: advance_def split: list.splits)

lemma step_dom: "dom (jobs s) \<subseteq> dom (jobs (fst (step v dm s e)))"
proof (cases e)
  case (Generate reqBody jobId mkdir env)
  then show ?thesis
    by (cases mkdir) (auto simp: step_def postGenerate_fails postGenerate_accepts)
next
  case (Progress jobId)
  then show ?thesis by (simp add: step_def)
next
  case (Advance a)
  then show ?thesis by (simp add: step_def)
qed

lemma step_JobId:
  assumes "snd (step v dm s e) = JobId jobId"
  shows "jobs (fst (step v dm s e)) jobId \<noteq> None"
proof (cases e)
  case (Generate reqBody jobId' mkdir env)
  then show ?thesis using assms
    by (cases mkdir) (auto simp: step_def postGenerate_fails postGenerate_accepts)
next
  case (Progress jobId')
  then show ?thesis using assms by (simp add: step_def getProgress_def Let_def split: option.splits)
next
  case (Advance a)
  then show ?thesis using assms by (simp add: step_def)
qed

lemma getProgress_found: "jobs s jobId \<noteq> None \<Longrightarrow> getProgress s jobId \<noteq> NotFound"
  by (auto simp: getProgress_def Let_def)

lemma answered_serve:
  "set issued \<subseteq> dom (jobs s) \<Longrightarrow> answered issued (zip es (serve v dm s es))"
proof (induction es arbitrary: s issued)
  case Nil
  then show ?case by simp
next
  case (Cons e es)
  let ?s' = "fst (step v dm s e)"
  let ?r = "snd (step v dm s e)"
  let ?issued' = "case ?r of JobId jobId \<Rightarrow> jobId # issued | _ \<Rightarrow> issued"
  have sub: "set issued \<subseteq> dom (jobs ?s')" using Cons.prems step_dom[of s v dm e] by blast
  have "set ?issued' \<subseteq> dom (jobs ?s')"
  proof (cases ?r)
    case (JobId jobId)
    then show ?thesis using sub step_JobId[of v dm s e jobId] by auto
  qed (use sub in simp_all)
  then have rest: "answered ?issued' (zip es (serve v dm ?s' es))" by (rule Cons.IH)
  have here: "(case e of
         Progress jobId \<Rightarrow> (if jobId \<in> set issued then ?r \<noteq> NotFound else True)
       | _ \<Rightarrow> True)"
  proof (cases e)
    case (Progress jobId)
    then show ?thesis using Cons.prems getProgress_found[of s jobId]
      by (auto simp: step_def)
  qed simp_all
  show ?case using here rest by simp
qed

text \<open>
  Claim C10. When a step of the server answers with a job id, that id is in the \<open>jobs\<close>
  map of the state the step leaves; no step removes a key of the map; and so, along any
  sequence of submissions, queries and steps of running jobs from the start of the process,
  no progress query for an id that was returned before is answered not-found.
\<close>

theorem registry_keeps_jobs:
  "(snd (step v dm s e) = JobId jobId \<longrightarrow> jobs (fst (step v dm s e)) jobId \<noteq> None)
   \<and> dom (jobs s) \<subseteq> dom (jobs (fst (step v dm s e)))
   \<and> answered [] (zip es (serve v dm startServer es))"
  using step_JobId[of v dm s e jobId] step_dom[of s v dm e] answered_serve[of "[]" startServer es v dm]
  by simp

theorem registry_keeps_jobs_witness:
  "serve Plain [] startServer demo_events
     = [JobId ''job1'', NoAnswer, JobStatus ''job1'' Rendering 40 ''Captured frame 1/2'' None,
        NoAnswer, NotFound]
   \<and> snd (step Plain [] startServer (hd demo_events)) = JobId ''job1''
   \<and> jobs (fst (step Plain [] startServer (hd demo_events))) ''job1'' \<noteq> None
   \<and> answered [] (zip demo_events (serve Plain [] startServer demo_events))"
proof -
  have e: "serve Plain [] startServer demo_events
     = [JobId ''job1'', NoAnswer, JobStatus ''job1'' Rendering 40 ''Captured frame 1/2'' None,
        NoAnswer, NotFound]"
    by code_simp
  have h: "snd (step Plain [] startServer (hd demo_events)) = JobId ''job1''"
    by (simp add: demo_events_def step_def postGenerate_accepts)
  note t = registry_keeps_jobs[of Plain "[]" startServer "hd demo_events" "''job1''" demo_events]
  show ?thesis
    using e h t[THEN conjunct1, THEN mp, OF h] t[THEN conjunct2, THEN conjunct2]
    by (intro conjI)
qed

subsection \<open>Submission\<close>

lemma captureLoop_none: "n \<le> 0 \<Longrightarrow> captureLoop v env p n i job = ([], [], None)"
  by (subst captureLoop.simps) simp

lemma totalFrames_nonpos: "durationSec p * fps p \<le> 0 \<Longrightarrow> totalFrames v p \<le> 0"
proof -
  assume "durationSec p * fps p \<le> 0"
  then have r: "round64 (durationSec p * fps p) \<le> 0" by (rule round64_nonpos)
  then have "round64 (durationSec p * fps p) / 2 \<le> 0" by simp
  then have h: "round64 (round64 (durationSec p * fps p) / 2) \<le> 0" by (rule round64_nonpos)
  have "\<lfloor>x\<rfloor> \<le> 0" if "x \<le> 0" for x :: rat
  proof -
    have "x < 1" using that by simp
    then show ?thesis by (simp only: floor_le_zero)
  qed
  then show ?thesis
    using r h by (cases v) (simp_all add: totalFrames_def Math_floor_def frameStep_def)
qed

lemma tryBlock_samples_empty:
  "durationSec p * fps p \<le> 0 \<Longrightarrow> samples (tryBlock v env p job) = []"
  by (simp add: tryBlock_def failed_def Let_def captureLoop_none totalFrames_nonpos split: option.splits)

lemma generateVideo_samples_empty:
  assumes "durationSec p * fps p \<le> 0"
  shows "samples (generateVideo v env p job) = []"
proof (cases "e_launch env")
  case (Some err)
  then show ?thesis by (simp add: generateVideo_def failed_def)
next
  case None
  then show ?thesis
    using tryBlock_samples_empty[OF assms]
    by (cases "e_close env") (simp_all add: generateVideo_def Let_def)
qed

lemma jobHistory_starts: "take 2 (jobHistory v env p jobId) = [newJob jobId, launchedJob jobId]"
proof -
  obtain T where "trace (generateVideo v env p (newJob jobId)) = launchedJob jobId # T"
    using generateVideo_trace[of v env p jobId] by blast
  then show ?thesis using jobHistory_shape[of v env p jobId] by auto
qed

text \<open>
  Claim C6, as stated, fails. \<open>POST /api/generate\<close> checks no parameter: a request
  with \<open>durationSec = 0\<close> is answered with a job id, the job is in the registry and
  \<open>rendering\<close>, and it ends in \<open>error\<close> only later, when the encoder fails.
\<close>

theorem validation_counterexample:
  "orDefault (b_durationSec zero_body) 90 \<le> 0
   \<and> snd (postGenerate Plain [] startServer (Some zero_body) ''job1'' None env_encode_fails)
       = JobId ''job1''
   \<and> getProgress (fst (postGenerate Plain [] startServer (Some zero_body) ''job1'' None env_encode_fails)) ''job1''
       = JobStatus ''job1'' Rendering 0 ''Launching headless browser'' None
   \<and> map status (pending (objects (fst (postGenerate Plain [] startServer (Some zero_body) ''job1''
         None env_encode_fails)) ! 0))
       = [Rendering, Rendering, Rendering, Error]"
  by code_simp

text \<open>
  Claim C6, amended. Whatever \<open>durationSec\<close> and \<open>fps\<close> are submitted, if the frame
  directory can be created the handler answers with the job id, the job object is
  registered, and \<open>generateVideo\<close> has been entered with the values as submitted (90, and
  24 or 60, when absent): the object is \<open>rendering\<close> when the id is returned and the rest
  of its history is still to come. When \<open>durationSec * fps\<close> is not positive, no frame is
  captured.
\<close>

theorem generate_not_validated:
  "snd (postGenerate v dm s reqBody jobId None env) = JobId jobId
   \<and> jobs (fst (postGenerate v dm s reqBody jobId None env)) jobId = Some (length (objects s))
   \<and> objects (fst (postGenerate v dm s reqBody jobId None env)) ! length (objects s)
       = \<lparr>current = launchedJob jobId,
          pending = drop 2 (jobHistory v env (requestParams v env dm reqBody jobId) jobId)\<rparr>
   \<and> take 2 (jobHistory v env (requestParams v env dm reqBody jobId) jobId)
       = [newJob jobId, launchedJob jobId]
   \<and> status (launchedJob jobId) = Rendering
   \<and> durationSec (requestParams v env dm (Some b) jobId) = orDefault (b_durationSec b) 90
   \<and> fps (requestParams v env dm (Some b) jobId)
       = orDefault (b_fps b) (case v of Plain \<Rightarrow> 24 | Decimated \<Rightarrow> 60)
   \<and> (durationSec (requestParams v env dm reqBody jobId) * fps (requestParams v env dm reqBody jobId) \<le> 0
        \<longrightarrow> samples (generateVideo v env (requestParams v env dm reqBody jobId) (newJob jobId)) = [])"
proof -
  have 1: "snd (postGenerate v dm s reqBody jobId None env) = JobId jobId"
    by (rule postGenerate_accepts)
  have 2: "jobs (fst (postGenerate v dm s reqBody jobId None env)) jobId = Some (length (objects s))"
    by (simp add: postGenerate_accepts)
  have 3: "objects (fst (postGenerate v dm s reqBody jobId None env)) ! length (objects s)
       = \<lparr>current = launchedJob jobId,
          pending = drop 2 (jobHistory v env (requestParams v env dm reqBody jobId) jobId)\<rparr>"
    by (simp add: postGenerate_accepts)
  have 4: "take 2 (jobHistory v env (requestParams v env dm reqBody jobId) jobId)
       = [newJob jobId, launchedJob jobId]"
    by (rule jobHistory_starts)
  have 5: "status (launchedJob jobId) = Rendering" by (simp add: launchedJob_def)
  have 6: "durationSec (requestParams v env dm (Some b) jobId) = orDefault (b_durationSec b) 90"
    by (simp add: requestParams_def orDefault_def Let_def)
  have 7: "fps (requestParams v env dm (Some b) jobId)
       = orDefault (b_fps b) (case v of Plain \<Rightarrow> 24 | Decimated \<Rightarrow> 60)"
    by (simp add: requestParams_def orDefault_def Let_def)
  have 8: "durationSec (requestParams v env dm reqBody jobId) * fps (requestParams v env dm reqBody jobId) \<le> 0
        \<longrightarrow> samples (generateVideo v env (requestParams v env dm reqBody jobId) (newJob jobId)) = []"
    using generateVideo_samples_empty by blast
  show ?thesis using 1 2 3 4 5 6 7 8 by (intro conjI)
qed

theorem generate_not_validated_witness:
  "durationSec (requestParams Plain env_encode_fails [] (Some zero_body) ''job1'')
     * fps (requestParams Plain env_encode_fails [] (Some zero_body) ''job1'') \<le> 0
   \<and> samples (generateVideo Plain env_encode_fails
        (requestParams Plain env_encode_fails [] (Some zero_body) ''job1'') (newJob ''job1'')) = []
   \<and> snd (postGenerate Plain [] startServer (Some zero_body) ''job1'' None env_encode_fails) = JobId ''job1''"
proof -
  have h: "durationSec (requestParams Plain env_encode_fails [] (Some zero_body) ''job1'')
     * fps (requestParams Plain env_encode_fails [] (Some zero_body) ''job1'') \<le> 0"
    by (simp add: requestParams_def orDefault_def zero_body_def emptyBody_def Let_def)
  note t = generate_not_validated[of Plain "[]" startServer "Some zero_body" "''job1''" env_encode_fails zero_body]
  show ?thesis
    using h t[THEN conjunct1]
      t[THEN conjunct2, THEN conjunct2, THEN conjunct2, THEN conjunct2, THEN conjunct2,
        THEN conjunct2, THEN conjunct2, THEN mp, OF h]
    by (intro conjI)
qed

subsection \<open>An empty list of dialogues\<close>

lemma generateFrames_app_empty:
  "generateFrames_app env [] backgroundType tempDir
     = Inl (TypeError ''Cannot read properties of undefined (reading 'image')'')"
proof -
  have 1: "dialoguesLoop_app env [] backgroundType tempDir 0 [] = Inr []"
    by (subst dialoguesLoop_app.simps) simp
  have 2: "finalLoop_app env [] backgroundType tempDir 0 []
     = Inl (TypeError ''Cannot read properties of undefined (reading 'image')'')"
    by (subst finalLoop_app.simps)
       (simp add: frameRate_def at_index_def createFrame_app_def writeFrame_app_def)
  show ?thesis by (simp add: generateFrames_app_def 1 2)
qed

text \<open>
  Claim C5 against \<open>video-generator-app/src/services/videoService.js\<close>. With an empty
  \<open>dialogues\<close> array the per-dialogue loop does nothing and the final loop calls
  \<open>createFrame(dialogues[-1], ...)\<close>, that is, with \<open>undefined\<close>; reading
  \<open>currentDialogue.image\<close> throws, \<open>generateFrames\<close> rejects before any frame is
  written, and the controller marks the job failed.
\<close>

theorem empty_dialogues_fail:
  "generateFrames_app env [] backgroundType tempDir
     = Inl (TypeError ''Cannot read properties of undefined (reading 'image')'')
   \<and> fst (controller_generateVideo svc_ok Map.empty
        \<lparr>vd_title = None, vd_background = None, vd_dialogues = Some []\<rparr> ''job1'') = JobId ''job1''
   \<and> snd (snd (controller_generateVideo svc_ok Map.empty
        \<lparr>vd_title = None, vd_background = None, vd_dialogues = Some []\<rparr> ''job1'')) ''job1''
       = Some (Failed ''Cannot read properties of undefined (reading 'image')'')"
  by (simp add: generateFrames_app_empty controller_generateVideo_def generateVideo_app_def
      svc_ok_def orDefault_def errorMessage_def)

text \<open>
  The service with the new interface does handle the empty list: every frame it renders has
  no visible message.
\<close>

lemma frameLoop_empty:
  assumes "fd_dialogues vd = []"
  shows "\<forall>s\<in>set (fst (generateFrames_ui env vd)). visibleMessages s = []"
proof -
  have "\<forall>s\<in>set (fst (frameLoop env vd 0 0 [] 1)). prefix (shown s) (fd_dialogues vd)"
    using frameLoop_prefix[of 0 vd "[]" env 0 1] by simp
  then show ?thesis using assms by (simp add: generateFrames_ui_def shown_def)
qed

end
